theory Spec2Isabelle
  imports Main "HOL-Library.Sublist"
begin

section \<open>Strings\<close>

text \<open>
  A JavaScript string is a sequence of UTF-16 code units. The model uses \<^typ>\<open>string\<close>,
  whose characters are the code units below 256 (ASCII and the Latin-1 supplement);
  \<open>length\<close>, \<open>take\<close> and \<open>drop\<close> then count what \<open>.length\<close> and \<open>.substring\<close> count.
\<close>

text \<open>The characters matched by \<open>\s\<close> and removed by \<open>trim()\<close>: TAB, LF, VT, FF, CR, SP, NBSP.\<close>

definition isWhiteSpace :: "char \<Rightarrow> bool" where
  "isWhiteSpace c = (of_char c \<in> {9, 10, 11, 12, 13, 32, 160 :: nat})"

definition trim :: "string \<Rightarrow> string" where
  "trim s = rev (dropWhile isWhiteSpace (rev (dropWhile isWhiteSpace s)))"

definition isDigit :: "char \<Rightarrow> bool" where
  "isDigit c = (48 \<le> (of_char c :: nat) \<and> (of_char c :: nat) \<le> 57)"

definition isLowerAZ :: "char \<Rightarrow> bool" where
  "isLowerAZ c = (97 \<le> (of_char c :: nat) \<and> (of_char c :: nat) \<le> 122)"

definition isUpperAZ :: "char \<Rightarrow> bool" where
  "isUpperAZ c = (65 \<le> (of_char c :: nat) \<and> (of_char c :: nat) \<le> 90)"

text \<open>
  \<open>toLowerCase()\<close> on one code unit below 256: A-Z, and the Latin-1 capitals
  U+00C0..U+00DE without the multiplication sign U+00D7, move up by 32.
\<close>

definition toLowerChar :: "char \<Rightarrow> char" where
  "toLowerChar c =
     (let n = (of_char c :: nat)
      in if (65 \<le> n \<and> n \<le> 90) \<or> (192 \<le> n \<and> n \<le> 222 \<and> n \<noteq> 215)
         then char_of (n + 32) else c)"

definition toLowerCase :: "string \<Rightarrow> string" where
  "toLowerCase s = map toLowerChar s"

text \<open>\<open>a || b\<close> on strings: the empty string is falsy.\<close>

definition or_str :: "string \<Rightarrow> string \<Rightarrow> string" where
  "or_str a b = (if a = [] then b else a)"

text \<open>\<open>s.split(c)\<close> for a one-character separator: never the empty array.\<close>

fun js_split :: "char \<Rightarrow> string \<Rightarrow> string list" where
  "js_split sep [] = [[]]"
| "js_split sep (c # cs) =
     (if c = sep then [] # js_split sep cs
      else (case js_split sep cs of [] \<Rightarrow> [[c]] | w # ws \<Rightarrow> (c # w) # ws))"

text \<open>\<open>xs.join(sep)\<close>.\<close>

fun js_join :: "string \<Rightarrow> string list \<Rightarrow> string" where
  "js_join sep [] = []"
| "js_join sep [x] = x"
| "js_join sep (x # y # ys) = x @ sep @ js_join sep (y # ys)"

text \<open>\<open>s.lastIndexOf(c)\<close>, with \<open>None\<close> for \<open>-1\<close>.\<close>

fun lastIndexOf :: "char \<Rightarrow> string \<Rightarrow> nat option" where
  "lastIndexOf c [] = None"
| "lastIndexOf c (x # xs) =
     (case lastIndexOf c xs of
        Some i \<Rightarrow> Some (Suc i)
      | None \<Rightarrow> if x = c then Some 0 else None)"

section \<open>Values read from storage\<close>

text \<open>
  What \<open>browser.storage\<close> and \<open>JSON.parse\<close> hand to the program. Numbers stay abstract
  (type \<open>'n\<close>): the program only asks whether one is truthy and what \<open>String\<close> makes of it,
  and both are parameters. An object is the list of its own properties, each key once.
\<close>

datatype 'n jsval =
    JUndefined
  | JNull
  | JBool bool
  | JNum 'n
  | JStr string
  | JArr "'n jsval list"
  | JObj "(string \<times> 'n jsval) list"

fun truthy :: "('n \<Rightarrow> bool) \<Rightarrow> 'n jsval \<Rightarrow> bool" where
  "truthy nt JUndefined = False"
| "truthy nt JNull = False"
| "truthy nt (JBool b) = b"
| "truthy nt (JNum n) = nt n"
| "truthy nt (JStr s) = (s \<noteq> [])"
| "truthy nt (JArr xs) = True"
| "truthy nt (JObj kvs) = True"

text \<open>\<open>typeof v === 'object'\<close>: true of \<open>null\<close> and of arrays too.\<close>

fun typeofObject :: "'n jsval \<Rightarrow> bool" where
  "typeofObject JNull = True"
| "typeofObject (JArr xs) = True"
| "typeofObject (JObj kvs) = True"
| "typeofObject v = False"

text \<open>
  \<open>String(v)\<close>, \<open>None\<close> when it throws a \<open>TypeError\<close>. An array is its elements joined
  by commas, \<open>null\<close> and \<open>undefined\<close> elements counting as empty. An object is
  \<open>[object Object]\<close> unless it has an own property \<open>toString\<close>: a stored value is never
  a function, so the conversion then finds nothing to call and throws.
\<close>

fun js_String :: "('n \<Rightarrow> string) \<Rightarrow> 'n jsval \<Rightarrow> string option" where
  "js_String ns JUndefined = Some ''undefined''"
| "js_String ns JNull = Some ''null''"
| "js_String ns (JBool b) = Some (if b then ''true'' else ''false'')"
| "js_String ns (JNum n) = Some (ns n)"
| "js_String ns (JStr s) = Some s"
| "js_String ns (JArr xs) =
     map_option (js_join '','')
       (those (map (\<lambda>v. if v = JUndefined \<or> v = JNull then Some [] else js_String ns v) xs))"
| "js_String ns (JObj kvs) =
     (if ''toString'' \<in> fst ` set kvs then None else Some ''[object Object]'')"

text \<open>
  \<open>v.k\<close> for the property names the program reads (\<open>id\<close>, \<open>extension\<close>, \<open>foldername\<close>):
  an own property of an object, \<open>undefined\<close> anywhere else.
\<close>

fun getProp :: "'n jsval \<Rightarrow> string \<Rightarrow> 'n jsval" where
  "getProp (JObj kvs) k = (case map_of kvs k of Some v \<Rightarrow> v | None \<Rightarrow> JUndefined)"
| "getProp v k = JUndefined"

section \<open>SecurityUtils\<close>

definition invalidFilenameChars :: "char list" where
  "invalidFilenameChars =
     [CHR ''<'', CHR ''>'', CHR '':'', CHR 0x22, CHR ''/'', CHR 0x5C, CHR ''|'', CHR ''?'', CHR ''*'']"

text \<open>\<open>.replace(/[<>:"/\\|?*]/g, '')\<close>\<close>

definition removeInvalidChars :: "string \<Rightarrow> string" where
  "removeInvalidChars s = filter (\<lambda>c. c \<notin> set invalidFilenameChars) s"

text \<open>\<open>.replace(/\.\./g, '')\<close>: the matches are found left to right and do not overlap.\<close>

fun removeTraversal :: "string \<Rightarrow> string" where
  "removeTraversal [] = []"
| "removeTraversal [c] = [c]"
| "removeTraversal (c # d # cs) =
     (if c = CHR ''.'' \<and> d = CHR ''.'' then removeTraversal cs
      else c # removeTraversal (d # cs))"

text \<open>\<open>.replace(/^\./, '')\<close>: one dot, at the very start.\<close>

fun removeLeadingDot :: "string \<Rightarrow> string" where
  "removeLeadingDot [] = []"
| "removeLeadingDot (c # cs) = (if c = CHR ''.'' then cs else c # cs)"

text \<open>\<open>SecurityUtils.sanitizeFolderName\<close> of the background script.\<close>

fun sanitizeFolderName :: "'n jsval \<Rightarrow> string" where
  "sanitizeFolderName (JStr folderName) =
     or_str (take 100 (trim (removeLeadingDot (removeTraversal (removeInvalidChars folderName)))))
       ''downloads''"
| "sanitizeFolderName v = ''downloads''"

text \<open>\<open>OptionsSecurityUtils.sanitizeFolderName\<close> of the options page: no fallback.\<close>

fun options_sanitizeFolderName :: "'n jsval \<Rightarrow> string" where
  "options_sanitizeFolderName (JStr folderName) =
     take 100 (trim (removeLeadingDot (removeTraversal (removeInvalidChars folderName))))"
| "options_sanitizeFolderName v = []"

text \<open>The character class \<open>[a-zA-Z0-9,.*]\<close>.\<close>

definition isPatternChar :: "char \<Rightarrow> bool" where
  "isPatternChar c =
     (isLowerAZ c \<or> isUpperAZ c \<or> isDigit c \<or> c = CHR '','' \<or> c = CHR ''.'' \<or> c = CHR ''*'')"

text \<open>
  \<open>SecurityUtils.isValidExtensionPattern\<close>: \<open>/^[a-zA-Z0-9,.*]+$/\<close> holds of the non-empty
  strings made of the class only.
\<close>

fun isValidExtensionPattern :: "'n jsval \<Rightarrow> bool" where
  "isValidExtensionPattern (JStr pattern) =
     (if length pattern > 200 then False
      else pattern \<noteq> [] \<and> list_all isPatternChar pattern)"
| "isValidExtensionPattern v = False"

text \<open>The options page also admits white space: \<open>/^[a-zA-Z0-9,.*\s]+$/\<close>.\<close>

fun options_isValidExtensionPattern :: "'n jsval \<Rightarrow> bool" where
  "options_isValidExtensionPattern (JStr pattern) =
     (if length pattern > 200 then False
      else pattern \<noteq> [] \<and> list_all (\<lambda>c. isPatternChar c \<or> isWhiteSpace c) pattern)"
| "options_isValidExtensionPattern v = False"

section \<open>The URL parser of the platform\<close>

text \<open>
  \<open>new URL(url)\<close> belongs to the browser. It is a parameter of the model, of type
  \<open>url_parser\<close>: \<open>None\<close> when the constructor throws, otherwise the fields the program reads.
\<close>

record url_obj =
  protocol :: string
  hostname :: string
  pathname :: string
  search :: string

type_synonym url_parser = "string \<Rightarrow> url_obj option"

definition isValidDownloadUrl :: "url_parser \<Rightarrow> string \<Rightarrow> bool" where
  "isValidDownloadUrl URL url =
     (case URL url of
        None \<Rightarrow> False
      | Some urlObj \<Rightarrow> protocol urlObj \<in> set [''http:'', ''https:''])"

section \<open>StorageManager\<close>

record rule =
  rid :: string
  extension :: string
  foldername :: string

definition DEFAULT_RULES :: "rule list" where
  "DEFAULT_RULES =
     [\<lparr>rid = ''default-1'', extension = ''jpg,jpeg,gif,png,webp,svg'', foldername = ''images''\<rparr>,
      \<lparr>rid = ''default-2'', extension = ''zip,7z,tar,gz,rar'', foldername = ''compression''\<rparr>,
      \<lparr>rid = ''default-3'', extension = ''exe,msi,dmg,deb'', foldername = ''executables''\<rparr>,
      \<lparr>rid = ''default-4'', extension = ''pdf,doc,docx,txt,rtf'', foldername = ''documents''\<rparr>,
      \<lparr>rid = ''default-5'', extension = ''mp4,avi,mkv,mov,wmv'', foldername = ''videos''\<rparr>,
      \<lparr>rid = ''default-6'', extension = ''mp3,wav,flac,aac,m4a'', foldername = ''audio''\<rparr>]"

definition DEFAULT_FOLDER :: string where
  "DEFAULT_FOLDER = ''downloads''"

text \<open>
  \<open>StorageManager.get\<close> catches every failure of the storage and resolves to the stored
  value, to \<open>undefined\<close> or to \<open>null\<close>; the functions below take that value.
\<close>

definition getDefaultFolder :: "'n jsval \<Rightarrow> string" where
  "getDefaultFolder folder = or_str (sanitizeFolderName folder) DEFAULT_FOLDER"

text \<open>
  The object built by the \<open>map\<close> callback of \<open>getRules\<close>; \<open>None\<close> when \<open>String\<close> throws
  on the id.
\<close>

definition sanitizeRule :: "('n \<Rightarrow> bool) \<Rightarrow> ('n \<Rightarrow> string) \<Rightarrow> 'n jsval \<Rightarrow> rule option" where
  "sanitizeRule nt ns r =
     map_option
       (\<lambda>idString.
          \<lparr>rid = take 50 idString,
           extension =
             (if isValidExtensionPattern (getProp r ''extension'')
              then (case getProp r ''extension'' of JStr p \<Rightarrow> p | _ \<Rightarrow> [])
              else []),
           foldername = sanitizeFolderName (getProp r ''foldername'')\<rparr>)
       (js_String ns (if truthy nt (getProp r ''id'') then getProp r ''id'' else JStr []))"

text \<open>
  \<open>StorageManager.getRules\<close>. \<open>parse\<close> is \<open>JSON.parse\<close>, \<open>None\<close> when it throws, which the
  inner \<open>catch\<close> answers with the defaults. The \<open>map\<close> callback throws when \<open>String\<close>
  does, which the outer \<open>catch\<close> answers with the defaults too.
\<close>

definition getRules ::
  "(string \<Rightarrow> 'n jsval option) \<Rightarrow> ('n \<Rightarrow> bool) \<Rightarrow> ('n \<Rightarrow> string) \<Rightarrow> 'n jsval \<Rightarrow> rule list" where
  "getRules parse nt ns rules =
     (case (case rules of JStr s \<Rightarrow> parse s | _ \<Rightarrow> Some rules) of
        None \<Rightarrow> DEFAULT_RULES
      | Some (JArr parsedRules) \<Rightarrow>
          (case those (map (sanitizeRule nt ns)
                        (filter (\<lambda>r. truthy nt r \<and> typeofObject r) parsedRules)) of
             None \<Rightarrow> DEFAULT_RULES
           | Some mapped \<Rightarrow> filter (\<lambda>r. extension r \<noteq> [] \<and> foldername r \<noteq> []) mapped)
      | Some _ \<Rightarrow> DEFAULT_RULES)"

section \<open>Regular expressions\<close>

text \<open>
  \<open>new RegExp(source)\<close> and \<open>test\<close>, for the sources \<open>createRegexPattern\<close> builds from
  patterns over the validated alphabet: a disjunction of alternatives, each a sequence
  of the assertions \<open>^\<close> and \<open>$\<close> and of atoms (a literal character, the dot, the class
  \<open>[a-z0-9]\<close>), an atom optionally starred. No flag is set: matching is case-sensitive,
  \<open>^\<close> holds at the start of the input only and \<open>$\<close> at its end only.
\<close>

datatype re_atom = Lit char | AnyChar | ClassAlnum

datatype re_term = Bol | Eol | One re_atom | Star re_atom

type_synonym regexp = "re_term list list"

text \<open>The syntax characters of a pattern: \<open>^ $ \ . * + ? ( ) [ ] { } |\<close>.\<close>

definition isSyntaxChar :: "char \<Rightarrow> bool" where
  "isSyntaxChar c =
     (c \<in> set [CHR ''^'', CHR ''$'', CHR 0x5C, CHR ''.'', CHR ''*'', CHR ''+'', CHR ''?'',
               CHR ''('', CHR '')'', CHR ''['', CHR '']'', CHR ''{'', CHR ''}'', CHR ''|''])"

text \<open>
  One alternative. \<open>None\<close> stands for a source outside the fragment, which the model
  treats as \<open>matches\<close> treats a source that \<open>new RegExp\<close> refuses. A validated pattern
  never leads there (lemma \<open>createRegexPattern_valid\<close>), and what is proved below about
  the regular expressions is proved for validated patterns.
\<close>

function parse_terms :: "string \<Rightarrow> re_term list option" where
  "parse_terms s =
     (if s = [] then Some []
      else if hd s = CHR ''^'' then map_option (Cons Bol) (parse_terms (tl s))
      else if hd s = CHR ''$'' then map_option (Cons Eol) (parse_terms (tl s))
      else if take 8 s = ''[a-z0-9]'' then
        (if take 1 (drop 8 s) = ''*''
         then map_option (Cons (Star ClassAlnum)) (parse_terms (drop 9 s))
         else map_option (Cons (One ClassAlnum)) (parse_terms (drop 8 s)))
      else if hd s = CHR ''.'' then
        (if take 1 (tl s) = ''*''
         then map_option (Cons (Star AnyChar)) (parse_terms (drop 2 s))
         else map_option (Cons (One AnyChar)) (parse_terms (tl s)))
      else if \<not> isSyntaxChar (hd s) then
        (if take 1 (tl s) = ''*''
         then map_option (Cons (Star (Lit (hd s)))) (parse_terms (drop 2 s))
         else map_option (Cons (One (Lit (hd s)))) (parse_terms (tl s)))
      else None)"
  by pat_completeness auto
termination
  by (relation "measure length") (auto simp: neq_Nil_conv)

declare parse_terms.simps [simp del]

definition RegExp_new :: "string \<Rightarrow> regexp option" where
  "RegExp_new source = those (map parse_terms (js_split CHR ''|'' source))"

text \<open>The dot matches every character but the line terminators.\<close>

fun accepts :: "re_atom \<Rightarrow> char \<Rightarrow> bool" where
  "accepts (Lit x) c = (c = x)"
| "accepts AnyChar c = (c \<noteq> CHR 0x0A \<and> c \<noteq> CHR 0x0D)"
| "accepts ClassAlnum c = (isLowerAZ c \<or> isDigit c)"

text \<open>
  Does the alternative match a prefix of the rest of the input? The flag says whether
  the rest is the whole input.
\<close>

fun match_here :: "re_term list \<Rightarrow> bool \<Rightarrow> string \<Rightarrow> bool" where
  "match_here [] at_start s = True"
| "match_here (Bol # ts) at_start s = (at_start \<and> match_here ts at_start s)"
| "match_here (Eol # ts) at_start s = (s = [] \<and> match_here ts at_start s)"
| "match_here (One a # ts) at_start [] = False"
| "match_here (One a # ts) at_start (c # cs) = (accepts a c \<and> match_here ts False cs)"
| "match_here (Star a # ts) at_start [] = match_here ts at_start []"
| "match_here (Star a # ts) at_start (c # cs) =
     ((accepts a c \<and> match_here (Star a # ts) False cs) \<or> match_here ts at_start (c # cs))"

text \<open>\<open>regexp.test(s)\<close>: some alternative matches at some position.\<close>

definition RegExp_test :: "regexp \<Rightarrow> string \<Rightarrow> bool" where
  "RegExp_test re s =
     list_ex (\<lambda>i. list_ex (\<lambda>alt. match_here alt (i = 0) (drop i s)) re) [0 ..< Suc (length s)]"

section \<open>FileMatcherService\<close>

definition getFileExtension :: "string \<Rightarrow> string" where
  "getFileExtension filename =
     (if filename = [] then []
      else (case lastIndexOf CHR ''.'' filename of
              None \<Rightarrow> []
            | Some lastDotIndex \<Rightarrow> toLowerCase (drop (lastDotIndex + 1) filename)))"

text \<open>
  \<open>getFilenameFromUrl\<close>. \<open>pop()\<close> and \<open>[0]\<close> of an empty array are \<open>undefined\<close>, whose
  \<open>split\<close> throws into the \<open>catch\<close>.
\<close>

definition getFilenameFromUrl :: "url_parser \<Rightarrow> string \<Rightarrow> string" where
  "getFilenameFromUrl URL url =
     (case URL url of
        None \<Rightarrow> ''download''
      | Some urlObj \<Rightarrow>
          (case rev (js_split CHR ''/'' (pathname urlObj)) of
             [] \<Rightarrow> ''download''
           | filename # _ \<Rightarrow>
               (case js_split CHR ''?'' filename of
                  [] \<Rightarrow> ''download''
                | q # _ \<Rightarrow>
                    (case js_split CHR ''#'' q of
                       [] \<Rightarrow> ''download''
                     | cleanFilename # _ \<Rightarrow> or_str cleanFilename ''download''))))"

definition downloadableExtensions :: "string list" where
  "downloadableExtensions =
     [''pdf'', ''doc'', ''docx'', ''txt'', ''rtf'', ''odt'',
      ''jpg'', ''jpeg'', ''png'', ''gif'', ''webp'', ''svg'', ''bmp'', ''ico'',
      ''mp4'', ''avi'', ''mkv'', ''mov'', ''wmv'', ''flv'', ''webm'',
      ''mp3'', ''wav'', ''flac'', ''aac'', ''m4a'', ''ogg'',
      ''zip'', ''7z'', ''tar'', ''gz'', ''rar'', ''bz2'',
      ''exe'', ''msi'', ''dmg'', ''deb'', ''rpm'', ''pkg'',
      ''xml'', ''json'', ''csv'', ''xls'', ''xlsx'', ''ppt'', ''pptx'',
      ''iso'', ''img'', ''bin'', ''apk'', ''jar'']"

definition excludedExtensions :: "string list" where
  "excludedExtensions = [''vtt'', ''srt'', ''ass'', ''m3u8'', ''ts'']"

text \<open>\<open>isLikelyDownloadableFile\<close>; the result is read as a condition (\<open>''\<close> is false).\<close>

definition isLikelyDownloadableFile :: "url_parser \<Rightarrow> string \<Rightarrow> bool" where
  "isLikelyDownloadableFile URL url =
     (let filename = getFilenameFromUrl URL url;
          extension = getFileExtension filename
      in if extension \<in> set excludedExtensions then False
         else extension \<noteq> [] \<and> extension \<in> set downloadableExtensions)"

text \<open>The source string handed to \<open>new RegExp\<close> by \<open>createRegexPattern\<close>.\<close>

definition regexSource :: "string \<Rightarrow> string" where
  "regexSource extensionPattern =
     (let cleanPattern = filter (\<lambda>c. \<not> isWhiteSpace c) (toLowerCase extensionPattern);
          regexPattern = map (\<lambda>c. if c = CHR '','' then CHR ''|'' else c) cleanPattern;
          regexPattern = concat (map (\<lambda>c. if c = CHR ''*'' then ''[a-z0-9]*'' else [c]) regexPattern);
          patterns = map (\<lambda>pattern. ''^'' @ pattern @ ''$'') (js_split CHR ''|'' regexPattern)
      in js_join ''|'' patterns)"

definition createRegexPattern :: "string \<Rightarrow> regexp option" where
  "createRegexPattern extensionPattern = RegExp_new (regexSource extensionPattern)"

text \<open>
  The two branches of \<open>matches\<close>, applied to the extension of the file. The first is
  taken for a pattern with \<open>*\<close> or \<open>,\<close>: the regular expression is built and tested,
  and a source that \<open>new RegExp\<close> refuses lands in the \<open>catch\<close>, which answers false.
  The second is \<open>fileExtension === extensionPattern.toLowerCase().trim()\<close>.
\<close>

definition matches_regex :: "string \<Rightarrow> string \<Rightarrow> bool" where
  "matches_regex extensionPattern fileExtension =
     (case createRegexPattern extensionPattern of
        None \<Rightarrow> False
      | Some pattern \<Rightarrow> RegExp_test pattern fileExtension)"

definition matches_exact :: "string \<Rightarrow> string \<Rightarrow> bool" where
  "matches_exact extensionPattern fileExtension =
     (fileExtension = trim (toLowerCase extensionPattern))"

definition matches :: "string \<Rightarrow> string \<Rightarrow> bool" where
  "matches extensionPattern filename =
     (if extensionPattern = [] \<or> filename = [] then False
      else let fileExtension = getFileExtension filename
           in if fileExtension = [] then False
              else if CHR ''*'' \<in> set extensionPattern \<or> CHR '','' \<in> set extensionPattern
                then matches_regex extensionPattern fileExtension
                else matches_exact extensionPattern fileExtension)"

text \<open>The \<open>for\<close> loop of \<open>determineTargetFolder\<close>, with its early return.\<close>

fun findMatchingRule :: "rule list \<Rightarrow> string \<Rightarrow> string \<Rightarrow> string" where
  "findMatchingRule [] defaultFolder filename = defaultFolder"
| "findMatchingRule (r # rules) defaultFolder filename =
     (if matches (extension r) filename then foldername r
      else findMatchingRule rules defaultFolder filename)"

text \<open>
  \<open>suggestedFilename || this.getFilenameFromUrl(url)\<close>, the file name both
  \<open>determineTargetFolder\<close> and \<open>initiateControlledDownload\<close> work with.
  \<open>suggestedFilename\<close> is a string or \<open>null\<close>.
\<close>

definition filenameFor :: "url_parser \<Rightarrow> string \<Rightarrow> string option \<Rightarrow> string" where
  "filenameFor URL url suggestedFilename =
     or_str (case suggestedFilename of None \<Rightarrow> [] | Some f \<Rightarrow> f) (getFilenameFromUrl URL url)"

text \<open>
  \<open>determineTargetFolder\<close>, given what \<open>getRules\<close> and \<open>getDefaultFolder\<close> resolved to.
  Neither of them rejects and the body throws nowhere, so the \<open>catch\<close> is never entered.
\<close>

definition determineTargetFolder ::
  "url_parser \<Rightarrow> rule list \<Rightarrow> string \<Rightarrow> string \<Rightarrow> string option \<Rightarrow> string" where
  "determineTargetFolder URL rules defaultFolder url suggestedFilename =
     (let filename = filenameFor URL url suggestedFilename
      in findMatchingRule rules defaultFolder filename)"

section \<open>DownloadInterceptor\<close>

definition trackingDomains :: "string list" where
  "trackingDomains =
     [''google-analytics.com'', ''googletagmanager.com'', ''googlesyndication.com'',
      ''doubleclick.net'', ''criteo.com'', ''facebook.com'', ''fbcdn.net'', ''media.net'',
      ''ezoic'', ''rubiconproject.com'', ''openx.net'', ''yieldmo.com'', ''3lift.com'',
      ''amazon-adsystem.com'', ''dnacdn.net'', ''onetag-sys.com'', ''token.rubiconproject.com'',
      ''eb2.3lift.com'', ''hbx.media.net'', ''gum.criteo.com'', ''ag.gbc.criteo.com'',
      ''gem.gbc.criteo.com'', ''securepubads.g.doubleclick.net'',
      ''pagead2.googlesyndication.com'', ''go.ezodn.com'']"

text \<open>
  \<open>isTrackingOrAnalyticsUrl\<close>. \<open>h.includes(d)\<close> is \<^term>\<open>sublist d h\<close> and
  \<open>h.endsWith(s)\<close> is \<^term>\<open>suffix s h\<close>.
\<close>

definition isTrackingOrAnalyticsUrl :: "url_parser \<Rightarrow> string \<Rightarrow> bool" where
  "isTrackingOrAnalyticsUrl URL url =
     (case URL url of
        None \<Rightarrow> False
      | Some urlObj \<Rightarrow>
          (let host = toLowerCase (hostname urlObj)
           in list_ex (\<lambda>domain. sublist domain host \<or> suffix (''.'' @ domain) host)
                trackingDomains))"

definition suspiciousParams :: "string list" where
  "suspiciousParams = [''utm_'', ''gclid'', ''fbclid'', ''_ga'', ''mc_'', ''tracking'', ''analytics'']"

text \<open>\<open>isUserInitiatedDownload\<close>, the decision taken for a navigation; read as a condition.\<close>

definition isUserInitiatedDownload :: "url_parser \<Rightarrow> string \<Rightarrow> bool" where
  "isUserInitiatedDownload URL url =
     (if isTrackingOrAnalyticsUrl URL url then False
      else if \<not> isLikelyDownloadableFile URL url then False
      else (case URL url of
              None \<Rightarrow> False
            | Some urlObj \<Rightarrow>
                if list_ex (\<lambda>param. sublist param (search urlObj)) suspiciousParams then False
                else (case rev (js_split CHR ''/'' (pathname urlObj)) of
                        [] \<Rightarrow> False
                      | filename # _ \<Rightarrow>
                          getFileExtension filename \<noteq> [] \<and> length filename > 3
                          \<and> \<not> sublist ''/ad/'' (pathname urlObj)
                          \<and> \<not> sublist ''/track'' (pathname urlObj))))"

text \<open>
  The static state of \<open>DownloadInterceptor\<close> that \<open>initiateControlledDownload\<close> touches,
  and what it does to the outside: the calls of \<open>browserAPI.downloads.download\<close>, in
  order, and the timers it sets (delay in milliseconds, key to delete).
\<close>

record download_options =
  dl_url :: string
  dl_filename :: string
  conflictAction :: string

record dispatcher =
  pendingDownloads :: "string set"
  downloadCalls :: "download_options list"
  timers :: "(nat \<times> string) list"

definition downloadKey :: "string \<Rightarrow> string option \<Rightarrow> string" where
  "downloadKey url suggestedFilename =
     url @ or_str (case suggestedFilename of None \<Rightarrow> [] | Some f \<Rightarrow> f) []"

text \<open>
  \<open>initiateControlledDownload\<close> is an \<open>async\<close> function: it runs without interruption up
  to its first \<open>await\<close>, and other callbacks may run before it goes on. \<open>initiate_enter\<close>
  is the part before the first \<open>await\<close>: it either returns \<open>null\<close> at once or registers
  the key and suspends.
\<close>

datatype entry = ReturnedNull | Suspended string

definition initiate_enter ::
  "url_parser \<Rightarrow> dispatcher \<Rightarrow> string \<Rightarrow> string option \<Rightarrow> dispatcher \<times> entry" where
  "initiate_enter URL st url suggestedFilename =
     (if \<not> isValidDownloadUrl URL url then (st, ReturnedNull)
      else let key = downloadKey url suggestedFilename
           in if key \<in> pendingDownloads st then (st, ReturnedNull)
              else (st\<lparr>pendingDownloads := insert key (pendingDownloads st)\<rparr>, Suspended key))"

text \<open>The request built once the target folder is known.\<close>

definition downloadOptions ::
  "url_parser \<Rightarrow> rule list \<Rightarrow> string \<Rightarrow> string \<Rightarrow> string option \<Rightarrow> download_options" where
  "downloadOptions URL rules defaultFolder url suggestedFilename =
     (let targetFolder = determineTargetFolder URL rules defaultFolder url suggestedFilename;
          rawFilename = filenameFor URL url suggestedFilename;
          sanitizedFilename = or_str (sanitizeFolderName (JStr rawFilename :: unit jsval)) ''download'';
          targetPath = targetFolder @ ''/'' @ sanitizedFilename
      in \<lparr>dl_url = url, dl_filename = targetPath, conflictAction = ''uniquify''\<rparr>)"

text \<open>
  \<open>initiate_resume\<close> is the rest of the body. \<open>download\<close> is
  \<open>browserAPI.downloads.download\<close>: \<open>Inr\<close> the download id, \<open>Inl\<close> the message of the error
  it rejects with, which the \<open>catch\<close> turns into the deletion of the key and \<open>null\<close>.
\<close>

definition initiate_resume ::
  "url_parser \<Rightarrow> (download_options \<Rightarrow> string + nat) \<Rightarrow> rule list \<Rightarrow> string \<Rightarrow>
     dispatcher \<Rightarrow> string \<Rightarrow> string option \<Rightarrow> dispatcher \<times> nat option" where
  "initiate_resume URL download rules defaultFolder st url suggestedFilename =
     (let opts = downloadOptions URL rules defaultFolder url suggestedFilename;
          called = st\<lparr>downloadCalls := downloadCalls st @ [opts]\<rparr>
      in case download opts of
           Inr downloadId \<Rightarrow>
             (called\<lparr>timers := timers called @ [(30000, downloadKey url suggestedFilename)]\<rparr>,
              Some downloadId)
         | Inl message \<Rightarrow>
             (called\<lparr>pendingDownloads :=
                       pendingDownloads called - {downloadKey url suggestedFilename}\<rparr>,
              None))"

text \<open>The callback of the 30 second timer.\<close>

definition timer_fires :: "string \<Rightarrow> dispatcher \<Rightarrow> dispatcher" where
  "timer_fires key st = st\<lparr>pendingDownloads := pendingDownloads st - {key}\<rparr>"

text \<open>One call run to its end with nothing in between.\<close>

definition initiateControlledDownload ::
  "url_parser \<Rightarrow> (download_options \<Rightarrow> string + nat) \<Rightarrow> rule list \<Rightarrow> string \<Rightarrow>
     dispatcher \<Rightarrow> string \<Rightarrow> string option \<Rightarrow> dispatcher \<times> nat option" where
  "initiateControlledDownload URL download rules defaultFolder st url suggestedFilename =
     (case initiate_enter URL st url suggestedFilename of
        (st', ReturnedNull) \<Rightarrow> (st', None)
      | (st', Suspended key) \<Rightarrow>
          initiate_resume URL download rules defaultFolder st' url suggestedFilename)"

section \<open>What a validated pattern compiles to\<close>

text \<open>
  Used to state what \<open>createRegexPattern\<close> returns: each character of a cleaned pattern
  becomes one term, each comma-separated part one anchored alternative.
\<close>

definition term_of_char :: "char \<Rightarrow> re_term" where
  "term_of_char c =
     (if c = CHR ''*'' then Star ClassAlnum
      else if c = CHR ''.'' then One AnyChar
      else One (Lit c))"

definition compiled :: "string \<Rightarrow> regexp" where
  "compiled extensionPattern =
     map (\<lambda>t. Bol # map term_of_char t @ [Eol])
       (js_split CHR '','' (filter (\<lambda>c. \<not> isWhiteSpace c) (toLowerCase extensionPattern)))"

abbreviation (input) star :: "char \<Rightarrow> string" where
  "star \<equiv> (\<lambda>c. if c = CHR ''*'' then ''[a-z0-9]*'' else [c])"

section \<open>The hostname rule in the words of the specification\<close>

text \<open>
  The specification's reading of the denylist: the hostname equals an entry or is a
  subdomain of one. It is compared with the program's test below.
\<close>

definition spec_isDenylistedHost :: "string \<Rightarrow> bool" where
  "spec_isDenylistedHost host =
     list_ex (\<lambda>domain. host = domain \<or> suffix (''.'' @ domain) host) trackingDomains"

section \<open>The URLs of the examples\<close>

text \<open>
  A parser for the examples below: it answers as \<open>new URL\<close> does on the URLs listed,
  and \<open>None\<close> on every other string, as \<open>new URL\<close> does on \<open>not a url\<close>.
\<close>

definition exampleURL :: url_parser where
  "exampleURL url =
     (if url = ''https://doubleclick.net/x'' then
        Some \<lparr>protocol = ''https:'', hostname = ''doubleclick.net'', pathname = ''/x'', search = []\<rparr>
      else if url = ''https://example.com/report.pdf'' then
        Some \<lparr>protocol = ''https:'', hostname = ''example.com'', pathname = ''/report.pdf'', search = []\<rparr>
      else if url = ''https://example.com/video.m3u8'' then
        Some \<lparr>protocol = ''https:'', hostname = ''example.com'', pathname = ''/video.m3u8'', search = []\<rparr>
      else if url = ''https://example.com/notes.xyz'' then
        Some \<lparr>protocol = ''https:'', hostname = ''example.com'', pathname = ''/notes.xyz'', search = []\<rparr>
      else if url = ''https://socialmedia.net/report.pdf'' then
        Some \<lparr>protocol = ''https:'', hostname = ''socialmedia.net'', pathname = ''/report.pdf'', search = []\<rparr>
      else if url = ''https://ads.doubleclick.net/x'' then
        Some \<lparr>protocol = ''https:'', hostname = ''ads.doubleclick.net'', pathname = ''/x'', search = []\<rparr>
      else None)"

section \<open>Lemmas: folder names\<close>

lemma removeTraversal_keep: "c \<noteq> CHR ''.'' \<Longrightarrow> removeTraversal (c # cs) = c # removeTraversal cs"
  by (cases cs) auto

lemma removeTraversal_no_dotdot: "\<not> sublist ''..'' (removeTraversal s)"
proof (induction s rule: removeTraversal.induct)
  case 1
  then show ?case by simp
next
  case (2 c)
  then show ?case by (simp add: sublist_Cons_right)
next
  case (3 c d cs)
  show ?case
  proof (cases "c = CHR ''.'' \<and> d = CHR ''.''")
    case True
    with 3 show ?thesis by simp
  next
    case False
    with 3 have ih: "\<not> sublist ''..'' (removeTraversal (d # cs))" by simp
    have "\<not> prefix ''..'' (c # removeTraversal (d # cs))"
    proof (cases "c = CHR ''.''")
      case True
      with False have "d \<noteq> CHR ''.''" by simp
      then show ?thesis by (simp add: removeTraversal_keep)
    next
      case False
      then show ?thesis by simp
    qed
    with ih False show ?thesis by (auto simp: sublist_Cons_right)
  qed
qed

lemma removeTraversal_id: "\<not> sublist ''..'' s \<Longrightarrow> removeTraversal s = s"
proof (induction s rule: removeTraversal.induct)
  case (3 c d cs)
  from 3(3) have nd: "\<not> (c = CHR ''.'' \<and> d = CHR ''.'')" by (auto simp: sublist_Cons_right)
  from 3(3) have "\<not> sublist ''..'' (d # cs)" by (simp add: sublist_Cons_right)
  with 3(2) nd have "removeTraversal (d # cs) = d # cs" by blast
  with nd show ?case by auto
qed simp_all

lemma removeTraversal_set: "set (removeTraversal s) \<subseteq> set s"
  by (induction s rule: removeTraversal.induct) auto

lemma removeTraversal_subseq: "subseq (removeTraversal s) s"
  by (induction s rule: removeTraversal.induct) auto

lemma removeLeadingDot_suffix: "suffix (removeLeadingDot s) s"
  by (cases s) (auto simp: suffix_Cons)

lemma removeLeadingDot_no_dot:
  "\<not> sublist ''..'' s \<Longrightarrow> \<not> prefix ''.'' (removeLeadingDot s)"
  by (cases s) (auto simp: sublist_Cons_right prefix_def)

lemma trim_decomp:
  "\<exists>l r. s = l @ trim s @ r \<and> list_all isWhiteSpace l \<and> list_all isWhiteSpace r"
proof -
  let ?d = "dropWhile isWhiteSpace s"
  let ?l = "takeWhile isWhiteSpace s"
  let ?r = "rev (takeWhile isWhiteSpace (rev ?d))"
  have "rev ?d = takeWhile isWhiteSpace (rev ?d) @ dropWhile isWhiteSpace (rev ?d)"
    by simp
  then have "?d = rev (dropWhile isWhiteSpace (rev ?d)) @ ?r"
    by (metis rev_append rev_rev_ident)
  then have "s = ?l @ trim s @ ?r"
    unfolding trim_def by (metis takeWhile_dropWhile_id)
  moreover have "list_all isWhiteSpace ?l"
    by (simp add: list_all_iff) (meson set_takeWhileD)
  moreover have "list_all isWhiteSpace ?r"
    by (simp add: list_all_iff) (meson set_takeWhileD)
  ultimately show ?thesis by blast
qed

lemma trim_sublist: "sublist (trim s) s"
  using trim_decomp [of s] by (metis sublist_appendI)

lemma trim_hd: "trim s \<noteq> [] \<Longrightarrow> \<not> isWhiteSpace (hd (trim s))"
proof -
  assume ne: "trim s \<noteq> []"
  let ?d = "dropWhile isWhiteSpace s"
  have dne: "?d \<noteq> []" using ne unfolding trim_def by (cases "?d = []") simp_all
  then have h: "\<not> isWhiteSpace (hd ?d)" by (rule hd_dropWhile)
  have "prefix (trim s) ?d"
    unfolding trim_def
    by (metis prefixI rev_append rev_rev_ident takeWhile_dropWhile_id)
  with ne have "hd (trim s) = hd ?d"
    by (metis hd_append2 prefixE)
  with h show ?thesis by simp
qed

lemma trim_last: "trim s \<noteq> [] \<Longrightarrow> \<not> isWhiteSpace (last (trim s))"
proof -
  assume ne: "trim s \<noteq> []"
  let ?e = "dropWhile isWhiteSpace (rev (dropWhile isWhiteSpace s))"
  have "?e \<noteq> []" using ne unfolding trim_def by (cases "?e = []") simp_all
  then have "\<not> isWhiteSpace (hd ?e)" by (rule hd_dropWhile)
  moreover have "last (trim s) = hd ?e"
    using \<open>?e \<noteq> []\<close> by (simp add: trim_def last_rev)
  ultimately show ?thesis by simp
qed

lemma trim_id:
  "s \<noteq> [] \<Longrightarrow> \<not> isWhiteSpace (hd s) \<Longrightarrow> \<not> isWhiteSpace (last s) \<Longrightarrow> trim s = s"
proof -
  assume a: "s \<noteq> []" "\<not> isWhiteSpace (hd s)" "\<not> isWhiteSpace (last s)"
  have 1: "dropWhile isWhiteSpace s = s"
    using a by (simp add: dropWhile_eq_self_iff)
  have "hd (rev s) = last s" using a(1) by (simp add: hd_rev)
  then have 2: "dropWhile isWhiteSpace (rev s) = rev s"
    using a by (simp add: dropWhile_eq_self_iff)
  show ?thesis by (simp add: trim_def 1 2)
qed

lemma trim_length: "length (trim s) \<le> length s"
  using trim_sublist [of s] by (rule sublist_length_le)

lemma removeInvalidChars_clean: "\<forall>ch \<in> set (removeInvalidChars x). ch \<notin> set invalidFilenameChars"
  by (simp add: removeInvalidChars_def)

lemma removeInvalidChars_id:
  "\<forall>ch \<in> set y. ch \<notin> set invalidFilenameChars \<Longrightarrow> removeInvalidChars y = y"
  by (simp add: removeInvalidChars_def filter_id_conv)

lemma removeLeadingDot_cases:
  "(if prefix ''.'' b then b = CHR ''.'' # removeLeadingDot b else removeLeadingDot b = b)"
  by (cases b) auto

lemma removeLeadingDot_id: "\<not> prefix ''.'' y \<Longrightarrow> removeLeadingDot y = y"
  by (cases y) auto

lemma sublist_take_self: "sublist (take n xs) xs"
  by (metis append_take_drop_id sublist_append_rightI)

text \<open>The string that the chain of replacements leaves, before the fallback.\<close>

lemma chain_sublist:
  "sublist (take 100 (trim (removeLeadingDot b))) b"
proof -
  have "sublist (take 100 (trim (removeLeadingDot b))) (trim (removeLeadingDot b))"
    by (rule sublist_take_self)
  also have "sublist (trim (removeLeadingDot b)) (removeLeadingDot b)"
    by (rule trim_sublist)
  also have "sublist (removeLeadingDot b) b"
    using removeLeadingDot_suffix by (rule suffix_imp_sublist)
  finally show ?thesis .
qed

lemma downloads_clean:
  "\<forall>ch \<in> set ''downloads''. ch \<notin> set invalidFilenameChars"
  "\<not> sublist ''..'' ''downloads''"
  by (simp_all add: invalidFilenameChars_def sublist_Cons_right)

lemma sanitize_post:
  fixes x :: string
  defines "r \<equiv> sanitizeFolderName (JStr x :: 'n jsval)"
  shows "r \<noteq> []" and "length r \<le> 100"
    and "\<forall>ch \<in> set r. ch \<notin> set invalidFilenameChars"
    and "\<not> sublist ''..'' r"
    and "\<not> isWhiteSpace (hd r)"
proof -
  let ?a = "removeInvalidChars x"
  let ?b = "removeTraversal ?a"
  let ?d = "trim (removeLeadingDot ?b)"
  let ?e = "take 100 ?d"
  have r: "r = (if ?e = [] then ''downloads'' else ?e)"
    by (simp add: r_def or_str_def)
  show "r \<noteq> []" by (simp add: r)
  show "length r \<le> 100" by (simp add: r)
  have sub: "sublist ?e ?b" by (rule chain_sublist)
  have "set ?e \<subseteq> set ?b" using sub by (rule set_mono_sublist)
  also have "\<dots> \<subseteq> set ?a" by (rule removeTraversal_set)
  finally have "\<forall>ch \<in> set ?e. ch \<notin> set invalidFilenameChars"
    using removeInvalidChars_clean [of x] by blast
  then show "\<forall>ch \<in> set r. ch \<notin> set invalidFilenameChars"
    unfolding r using downloads_clean(1) by presburger
  have "\<not> sublist ''..'' ?e"
    using sub removeTraversal_no_dotdot [of ?a] sublist_order.order.trans by blast
  then show "\<not> sublist ''..'' r"
    unfolding r using downloads_clean(2) by presburger
  have "?e \<noteq> [] \<Longrightarrow> \<not> isWhiteSpace (hd ?e)"
  proof -
    assume ne: "?e \<noteq> []"
    then have "?d \<noteq> []" by auto
    then have "\<not> isWhiteSpace (hd ?d)" by (rule trim_hd)
    moreover have "hd ?e = hd ?d" using ne by (simp add: hd_take)
    ultimately show ?thesis by simp
  qed
  moreover have "\<not> isWhiteSpace (hd ''downloads'')" by (simp add: isWhiteSpace_def)
  ultimately show "\<not> isWhiteSpace (hd r)" unfolding r by presburger
qed

lemma removeTraversal_length: "length (removeTraversal s) \<le> length s"
  by (induction s rule: removeTraversal.induct) auto

lemma removeLeadingDot_length: "length (removeLeadingDot s) \<le> length s"
  by (cases s) auto

lemma sanitize_fixed:
  fixes y :: string
  assumes ne: "y \<noteq> []" and len: "length y \<le> 100"
    and clean: "\<forall>ch \<in> set y. ch \<notin> set invalidFilenameChars"
    and nodd: "\<not> sublist ''..'' y"
    and hdws: "\<not> isWhiteSpace (hd y)"
    and nodot: "\<not> prefix ''.'' y"
    and lastws: "\<not> isWhiteSpace (last y)"
  shows "sanitizeFolderName (JStr y :: 'n jsval) = y"
proof -
  have 1: "removeInvalidChars y = y" using clean by (rule removeInvalidChars_id)
  have 2: "removeTraversal y = y" using nodd by (rule removeTraversal_id)
  have 3: "removeLeadingDot y = y" using nodot by (rule removeLeadingDot_id)
  have 4: "trim y = y" using ne hdws lastws by (rule trim_id)
  show ?thesis using ne len by (simp add: 1 2 3 4 or_str_def)
qed

lemma sanitize_short_last:
  fixes y :: string
  assumes len: "length y \<le> 100"
  shows "\<not> isWhiteSpace (last (sanitizeFolderName (JStr y :: 'n jsval)))"
proof -
  let ?w = "removeLeadingDot (removeTraversal (removeInvalidChars y))"
  have "length ?w \<le> length y"
    using removeLeadingDot_length [of "removeTraversal (removeInvalidChars y)"]
      removeTraversal_length [of "removeInvalidChars y"]
    by (simp add: removeInvalidChars_def) (meson le_trans length_filter_le)
  then have "length (trim ?w) \<le> 100"
    using trim_length [of ?w] len by linarith
  then have r: "sanitizeFolderName (JStr y :: 'n jsval) = (if trim ?w = [] then ''downloads'' else trim ?w)"
    by (simp add: or_str_def)
  show ?thesis
  proof (cases "trim ?w = []")
    case True
    then show ?thesis unfolding r by (simp add: isWhiteSpace_def)
  next
    case False
    then show ?thesis unfolding r using trim_last [of ?w] by simp
  qed
qed

lemma sanitize_leading_dot_moves:
  fixes y :: string
  assumes clean: "\<forall>ch \<in> set y. ch \<notin> set invalidFilenameChars"
    and nodd: "\<not> sublist ''..'' y"
    and dot: "prefix ''.'' y"
  shows "sanitizeFolderName (JStr y :: 'n jsval) \<noteq> y"
proof -
  from dot obtain t where y: "y = CHR ''.'' # t" by (auto simp: prefix_def)
  have 1: "removeInvalidChars y = y" using clean by (rule removeInvalidChars_id)
  have 2: "removeTraversal y = y" using nodd by (rule removeTraversal_id)
  have 3: "removeLeadingDot y = t" by (simp add: y)
  let ?e = "take 100 (trim t)"
  have r: "sanitizeFolderName (JStr y :: 'n jsval) = (if ?e = [] then ''downloads'' else ?e)"
    by (simp add: 1 2 3 or_str_def)
  have "length ?e < length y" using trim_length [of t] by (simp add: y)
  then have "?e \<noteq> y" by auto
  moreover have "''downloads'' \<noteq> y" by (simp add: y)
  ultimately show ?thesis unfolding r by presburger
qed

lemma sanitize_twice_iff:
  fixes x :: string
  shows "sanitizeFolderName (JStr (sanitizeFolderName (JStr x :: 'n jsval)) :: 'n jsval)
           = sanitizeFolderName (JStr x :: 'n jsval)
         \<longleftrightarrow> \<not> prefix ''.'' (sanitizeFolderName (JStr x :: 'n jsval))
             \<and> \<not> isWhiteSpace (last (sanitizeFolderName (JStr x :: 'n jsval)))"
proof -
  let ?y = "sanitizeFolderName (JStr x :: 'n jsval)"
  note p = sanitize_post [of x, where 'n = 'n]
  show ?thesis
  proof (cases "\<not> prefix ''.'' ?y \<and> \<not> isWhiteSpace (last ?y)")
    case True
    then have "sanitizeFolderName (JStr ?y :: 'n jsval) = ?y"
      using sanitize_fixed [of ?y, where 'n = 'n] p by blast
    with True show ?thesis by simp
  next
    case False
    then consider "prefix ''.'' ?y" | "isWhiteSpace (last ?y)" by blast
    then have "sanitizeFolderName (JStr ?y :: 'n jsval) \<noteq> ?y"
    proof cases
      case 1
      then show ?thesis using sanitize_leading_dot_moves [of ?y, where 'n = 'n] p by blast
    next
      case 2
      then show ?thesis using sanitize_short_last [of ?y, where 'n = 'n] p(2) by metis
    qed
    with False show ?thesis by simp
  qed
qed

lemma sanitize_options: "sanitizeFolderName v = or_str (options_sanitizeFolderName v) ''downloads''"
  by (cases v) (simp_all add: or_str_def)

section \<open>Lemmas: characters, splitting, regular expressions\<close>

lemma toLowerChar_upper: "isUpperAZ c \<Longrightarrow> isLowerAZ (toLowerChar c)"
  by (auto simp: isUpperAZ_def isLowerAZ_def toLowerChar_def Let_def of_char_of)

lemma toLowerChar_fix:
  "\<not> isUpperAZ c \<Longrightarrow> (of_char c :: nat) < 192 \<Longrightarrow> toLowerChar c = c"
  by (auto simp: isUpperAZ_def toLowerChar_def Let_def)

lemma toLowerChar_idem: "toLowerChar (toLowerChar c) = toLowerChar c"
  by (auto simp: toLowerChar_def Let_def of_char_of)

lemma toLowerCase_idem: "toLowerCase (toLowerCase s) = toLowerCase s"
  by (simp add: toLowerCase_def toLowerChar_idem)

lemma toLowerChar_ws: "isWhiteSpace (toLowerChar c) = isWhiteSpace c"
  by (auto simp: toLowerChar_def Let_def of_char_of isWhiteSpace_def)

lemma alnum_not_syntax: "isLowerAZ c \<or> isDigit c \<Longrightarrow> \<not> isSyntaxChar c"
  by (auto simp: isLowerAZ_def isDigit_def isSyntaxChar_def)

lemma js_split_nonempty: "js_split sep s \<noteq> []"
  by (induction s) (auto split: list.splits)

lemma js_split_none: "sep \<notin> set s \<Longrightarrow> js_split sep s = [s]"
  by (induction s) auto

lemma js_split_prepend:
  "sep \<notin> set xs \<Longrightarrow>
   js_split sep (xs @ ys) = (xs @ hd (js_split sep ys)) # tl (js_split sep ys)"
proof (induction xs)
  case Nil
  then show ?case using js_split_nonempty [of sep ys] by simp
next
  case (Cons x xs)
  then show ?case by auto
qed

lemma js_split_at_sep:
  "sep \<notin> set xs \<Longrightarrow> js_split sep (xs @ sep # ys) = xs # js_split sep ys"
  by (simp add: js_split_prepend)

lemma js_split_parts: "t \<in> set (js_split sep s) \<Longrightarrow> set t \<subseteq> set s - {sep}"
proof (induction s arbitrary: t)
  case Nil
  then show ?case by simp
next
  case (Cons c cs)
  show ?case
  proof (cases "c = sep")
    case True
    with Cons show ?thesis by auto
  next
    case False
    obtain w ws where w: "js_split sep cs = w # ws"
      using js_split_nonempty [of sep cs] by (cases "js_split sep cs") auto
    with False Cons.prems have "t = c # w \<or> t \<in> set ws" by auto
    then show ?thesis
    proof
      assume "t = c # w"
      moreover have "set w \<subseteq> set cs - {sep}" using Cons.IH [of w] w by simp
      ultimately show ?thesis using False by auto
    next
      assume "t \<in> set ws"
      then have "set t \<subseteq> set cs - {sep}" using Cons.IH [of t] w by simp
      then show ?thesis by auto
    qed
  qed
qed

lemma js_split_join:
  "xs \<noteq> [] \<Longrightarrow> \<forall>x \<in> set xs. sep \<notin> set x \<Longrightarrow> js_split sep (js_join [sep] xs) = xs"
proof (induction "[sep]" xs rule: js_join.induct)
  case 1
  then show ?case by simp
next
  case (2 x)
  then show ?case by (simp add: js_split_none)
next
  case (3 x y ys)
  then show ?case by (simp add: js_split_at_sep)
qed

text \<open>Replacing the commas by bars, then splitting at the bars, splits at the commas.\<close>

lemma js_split_commas:
  "CHR ''|'' \<notin> set s \<Longrightarrow>
   js_split CHR ''|'' (map (\<lambda>c. if c = CHR '','' then CHR ''|'' else c) s) = js_split CHR '','' s"
  by (induction s) auto

lemma js_split_concat:
  assumes "\<And>c. c \<noteq> sep \<Longrightarrow> sep \<notin> set (f c)" and "f sep = [sep]"
  shows "js_split sep (concat (map f s)) = map (\<lambda>t. concat (map f t)) (js_split sep s)"
proof (induction s)
  case Nil
  then show ?case by simp
next
  case (Cons c cs)
  obtain w ws where w: "js_split sep cs = w # ws"
    using js_split_nonempty [of sep cs] by (cases "js_split sep cs") auto
  show ?case
  proof (cases "c = sep")
    case True
    then show ?thesis using Cons assms(2) by simp
  next
    case False
    then have "sep \<notin> set (f c)" by (rule assms(1))
    then show ?thesis using Cons w False by (simp add: js_split_prepend)
  qed
qed

lemma those_map:
  "\<forall>x \<in> set xs. f x = Some (g x) \<Longrightarrow> those (map f xs) = Some (map g xs)"
  by (induction xs) auto

lemma parse_terms_Nil: "parse_terms [] = Some []"
  by (simp add: parse_terms.simps)

lemma parse_terms_Eol: "parse_terms ''$'' = Some [Eol]"
  by (subst parse_terms.simps) (simp add: parse_terms_Nil)

lemma starred_head: "take 1 rest \<noteq> ''*'' \<Longrightarrow> take 1 (concat (map star t) @ rest) \<noteq> ''*''"
  by (cases t) auto

lemma parse_body:
  assumes "\<forall>c \<in> set t. isLowerAZ c \<or> isDigit c \<or> c = CHR ''.'' \<or> c = CHR ''*''"
    and "take 1 rest \<noteq> ''*''"
  shows "parse_terms (concat (map star t) @ rest)
           = map_option ((@) (map term_of_char t)) (parse_terms rest)"
  using assms
proof (induction t)
  case Nil
  then show ?case by (simp add: option.map_ident)
next
  case (Cons c t)
  let ?rest = "concat (map star t) @ rest"
  have nostar: "take 1 ?rest \<noteq> ''*''" using Cons.prems(2) by (rule starred_head)
  have ih: "parse_terms ?rest = map_option ((@) (map term_of_char t)) (parse_terms rest)"
    using Cons by simp
  consider (st) "c = CHR ''*''" | (dot) "c = CHR ''.''" | (al) "isLowerAZ c \<or> isDigit c"
    using Cons.prems(1) by auto
  then show ?case
  proof cases
    case st
    have "parse_terms (''[a-z0-9]*'' @ ?rest) = map_option (Cons (Star ClassAlnum)) (parse_terms ?rest)"
      by (subst parse_terms.simps) simp
    moreover have "term_of_char c = Star ClassAlnum" by (simp add: st term_of_char_def)
    ultimately show ?thesis
      by (simp add: st ih option.map_comp comp_def)
  next
    case dot
    have "parse_terms (CHR ''.'' # ?rest) = map_option (Cons (One AnyChar)) (parse_terms ?rest)"
      using nostar by (subst parse_terms.simps) simp
    moreover have "term_of_char c = One AnyChar" by (simp add: dot term_of_char_def)
    ultimately show ?thesis
      by (simp add: dot ih option.map_comp comp_def)
  next
    case al
    then have ns: "\<not> isSyntaxChar c" by (rule alnum_not_syntax)
    then have ne: "c \<noteq> CHR ''^''" "c \<noteq> CHR ''$''" "c \<noteq> CHR ''.''" "c \<noteq> CHR ''[''" "c \<noteq> CHR ''*''"
      by (auto simp: isSyntaxChar_def)
    have "parse_terms (c # ?rest) = map_option (Cons (One (Lit c))) (parse_terms ?rest)"
      using nostar ne ns by (subst parse_terms.simps) simp
    moreover have "term_of_char c = One (Lit c)" using ne by (simp add: term_of_char_def)
    ultimately show ?thesis
      using ne by (simp add: ih option.map_comp comp_def)
  qed
qed

lemma parse_anchored:
  assumes "\<forall>c \<in> set t. isLowerAZ c \<or> isDigit c \<or> c = CHR ''.'' \<or> c = CHR ''*''"
  shows "parse_terms (''^'' @ concat (map star t) @ ''$'') = Some (Bol # map term_of_char t @ [Eol])"
proof -
  have "parse_terms (''^'' @ concat (map star t) @ ''$'')
          = map_option (Cons Bol) (parse_terms (concat (map star t) @ ''$''))"
    by (subst parse_terms.simps) simp
  also have "parse_terms (concat (map star t) @ ''$'')
          = map_option ((@) (map term_of_char t)) (parse_terms ''$'')"
    using assms by (rule parse_body) simp
  finally show ?thesis by (simp add: parse_terms_Eol)
qed

lemma clean_chars:
  assumes "\<forall>c \<in> set p. isPatternChar c \<or> isWhiteSpace c"
    and "c \<in> set (filter (\<lambda>c. \<not> isWhiteSpace c) (toLowerCase p))"
  shows "isLowerAZ c \<or> isDigit c \<or> c = CHR '','' \<or> c = CHR ''.'' \<or> c = CHR ''*''"
proof -
  from assms(2) obtain d where d: "d \<in> set p" "c = toLowerChar d" "\<not> isWhiteSpace c"
    by (auto simp: toLowerCase_def)
  then have "\<not> isWhiteSpace d" by (simp add: toLowerChar_ws)
  with assms(1) d(1) have pc: "isPatternChar d" by blast
  show ?thesis
  proof (cases "isUpperAZ d")
    case True
    then show ?thesis using d(2) toLowerChar_upper by blast
  next
    case False
    moreover from pc have "(of_char d :: nat) < 192"
      by (auto simp: isPatternChar_def isLowerAZ_def isUpperAZ_def isDigit_def)
    ultimately have "c = d" using d(2) by (simp add: toLowerChar_fix)
    with pc False show ?thesis by (simp add: isPatternChar_def)
  qed
qed

lemma regexSource_terms:
  assumes "CHR ''|'' \<notin> set (filter (\<lambda>c. \<not> isWhiteSpace c) (toLowerCase p))"
  shows "regexSource p =
           js_join ''|'' (map (\<lambda>t. ''^'' @ concat (map star t) @ ''$'')
             (js_split CHR '','' (filter (\<lambda>c. \<not> isWhiteSpace c) (toLowerCase p))))"
proof -
  let ?clean = "filter (\<lambda>c. \<not> isWhiteSpace c) (toLowerCase p)"
  let ?rp1 = "map (\<lambda>c. if c = CHR '','' then CHR ''|'' else c) ?clean"
  have 1: "js_split CHR ''|'' (concat (map star ?rp1))
             = map (\<lambda>t. concat (map star t)) (js_split CHR ''|'' ?rp1)"
    by (rule js_split_concat) auto
  have 2: "js_split CHR ''|'' ?rp1 = js_split CHR '','' ?clean"
    using assms by (rule js_split_commas)
  show ?thesis
    unfolding regexSource_def Let_def 1 2 by (simp add: comp_def)
qed

lemma createRegexPattern_valid:
  assumes "\<forall>c \<in> set p. isPatternChar c \<or> isWhiteSpace c"
  shows "createRegexPattern p = Some (compiled p)"
proof -
  let ?clean = "filter (\<lambda>c. \<not> isWhiteSpace c) (toLowerCase p)"
  let ?terms = "js_split CHR '','' ?clean"
  let ?patterns = "map (\<lambda>t. ''^'' @ concat (map star t) @ ''$'') ?terms"
  note cc = clean_chars [OF assms]
  have nobar: "CHR ''|'' \<notin> set ?clean"
    using cc [of "CHR ''|''"] by (auto simp: isLowerAZ_def isDigit_def)
  have src: "regexSource p = js_join ''|'' ?patterns"
    using nobar by (rule regexSource_terms)
  have tchars: "\<forall>c \<in> set t. isLowerAZ c \<or> isDigit c \<or> c = CHR ''.'' \<or> c = CHR ''*''"
    if "t \<in> set ?terms" for t
  proof
    fix c assume "c \<in> set t"
    with js_split_parts [OF that] have "c \<in> set ?clean" "c \<noteq> CHR '',''" by auto
    with cc [of c] show "isLowerAZ c \<or> isDigit c \<or> c = CHR ''.'' \<or> c = CHR ''*''" by blast
  qed
  have pbar: "\<forall>x \<in> set ?patterns. CHR ''|'' \<notin> set x"
  proof
    fix x assume "x \<in> set ?patterns"
    then obtain t where t: "t \<in> set ?terms" "x = ''^'' @ concat (map star t) @ ''$''" by auto
    have "CHR ''|'' \<notin> set t"
      using tchars [OF t(1)] by (auto simp: isLowerAZ_def isDigit_def)
    then have "CHR ''|'' \<notin> set (concat (map star t))" by (induction t) auto
    then show "CHR ''|'' \<notin> set x" unfolding t(2) by simp
  qed
  have "?patterns \<noteq> []" using js_split_nonempty [of "CHR '',''" ?clean] by simp
  then have split: "js_split CHR ''|'' (js_join ''|'' ?patterns) = ?patterns"
    using pbar by (rule js_split_join)
  have "those (map parse_terms ?patterns)
          = those (map (\<lambda>t. parse_terms (''^'' @ concat (map star t) @ ''$'')) ?terms)"
    by (simp add: comp_def)
  also have "\<dots> = Some (map (\<lambda>t. Bol # map term_of_char t @ [Eol]) ?terms)"
    by (rule those_map) (use tchars parse_anchored in blast)
  finally show ?thesis
    unfolding createRegexPattern_def RegExp_new_def src split compiled_def .
qed

lemma RegExp_test_anchored:
  assumes "\<forall>alt \<in> set re. \<exists>ts. alt = Bol # ts"
  shows "RegExp_test re s = list_ex (\<lambda>alt. match_here alt True s) re"
proof -
  have later: "\<not> match_here alt False t" if "alt \<in> set re" for alt t
    using assms that by auto
  have "RegExp_test re s \<longleftrightarrow>
          (\<exists>i \<in> {0 ..< Suc (length s)}. \<exists>alt \<in> set re. match_here alt (i = 0) (drop i s))"
    by (simp only: RegExp_test_def list_ex_iff set_upt)
  also have "\<dots> \<longleftrightarrow> (\<exists>alt \<in> set re. match_here alt True s)"
  proof
    assume "\<exists>i \<in> {0 ..< Suc (length s)}. \<exists>alt \<in> set re. match_here alt (i = 0) (drop i s)"
    then obtain i alt where ia: "alt \<in> set re" "match_here alt (i = 0) (drop i s)" by blast
    then have "i = 0" using later by (cases "i = 0") auto
    with ia show "\<exists>alt \<in> set re. match_here alt True s" by auto
  next
    assume "\<exists>alt \<in> set re. match_here alt True s"
    then obtain alt where "alt \<in> set re" "match_here alt (0 = (0::nat)) (drop 0 s)" by auto
    then show "\<exists>i \<in> {0 ..< Suc (length s)}. \<exists>alt \<in> set re. match_here alt (i = 0) (drop i s)"
      by (intro bexI [of _ 0]) auto
  qed
  finally show ?thesis by (simp add: list_ex_iff)
qed

lemma match_literal:
  "match_here (map (\<lambda>c. One (Lit c)) w @ [Eol]) b s \<longleftrightarrow> s = w"
proof (induction w arbitrary: s b)
  case Nil
  then show ?case by simp
next
  case (Cons c w)
  then show ?case by (cases s) auto
qed

lemma term_of_char_literal:
  "CHR ''*'' \<notin> set t \<Longrightarrow> CHR ''.'' \<notin> set t \<Longrightarrow> map term_of_char t = map (\<lambda>c. One (Lit c)) t"
  by (induction t) (auto simp: term_of_char_def)

lemma toLowerChar_low: "(of_char (toLowerChar d) :: nat) < 97 \<Longrightarrow> toLowerChar d = d"
  by (auto simp: toLowerChar_def Let_def of_char_of split: if_splits)

lemma clean_keeps_out:
  assumes "(of_char c :: nat) < 97" and "c \<notin> set p"
  shows "c \<notin> set (filter (\<lambda>c. \<not> isWhiteSpace c) (toLowerCase p))"
proof
  assume "c \<in> set (filter (\<lambda>c. \<not> isWhiteSpace c) (toLowerCase p))"
  then obtain d where d: "d \<in> set p" "c = toLowerChar d" by (auto simp: toLowerCase_def)
  with assms(1) have "toLowerChar d = d" using toLowerChar_low by blast
  with d assms(2) show False by simp
qed

text \<open>A validated pattern without dot and star: the regular expression accepts its terms.\<close>

lemma matches_regex_literal:
  assumes valid: "\<forall>c \<in> set p. isPatternChar c \<or> isWhiteSpace c"
    and nodot: "CHR ''.'' \<notin> set p" and nostar: "CHR ''*'' \<notin> set p"
  shows "matches_regex p e \<longleftrightarrow>
           e \<in> set (js_split CHR '','' (filter (\<lambda>c. \<not> isWhiteSpace c) (toLowerCase p)))"
proof -
  let ?clean = "filter (\<lambda>c. \<not> isWhiteSpace c) (toLowerCase p)"
  let ?terms = "js_split CHR '','' ?clean"
  have cdot: "CHR ''.'' \<notin> set ?clean" using nodot by (intro clean_keeps_out) simp_all
  have cstar: "CHR ''*'' \<notin> set ?clean" using nostar by (intro clean_keeps_out) simp_all
  have lit: "map term_of_char t = map (\<lambda>c. One (Lit c)) t" if "t \<in> set ?terms" for t
    using js_split_parts [OF that] cdot cstar by (intro term_of_char_literal) auto
  have m: "match_here (Bol # map term_of_char t @ [Eol]) True e \<longleftrightarrow> e = t"
    if "t \<in> set ?terms" for t
  proof -
    have "match_here (Bol # map term_of_char t @ [Eol]) True e
            = match_here (map (\<lambda>c. One (Lit c)) t @ [Eol]) True e"
      by (simp only: lit [OF that] match_here.simps simp_thms)
    then show ?thesis by (simp only: match_literal)
  qed
  have "matches_regex p e = RegExp_test (compiled p) e"
    by (simp add: matches_regex_def createRegexPattern_valid [OF valid])
  also have "\<dots> = list_ex (\<lambda>alt. match_here alt True e) (compiled p)"
    by (rule RegExp_test_anchored) (auto simp: compiled_def)
  also have "\<dots> \<longleftrightarrow> (\<exists>t \<in> set ?terms. match_here (Bol # map term_of_char t @ [Eol]) True e)"
    by (simp add: compiled_def list_ex_iff)
  also have "\<dots> \<longleftrightarrow> (\<exists>t \<in> set ?terms. e = t)"
    using m by blast
  finally show ?thesis by auto
qed

lemma trim_toLowerCase: "trim (toLowerCase s) = toLowerCase (trim s)"
proof -
  have c: "isWhiteSpace \<circ> toLowerChar = isWhiteSpace"
    by (rule ext) (simp add: toLowerChar_ws)
  show ?thesis
    by (simp add: trim_def toLowerCase_def dropWhile_map rev_map c)
qed

lemma toLowerCase_Nil: "toLowerCase [] = []"
  by (simp add: toLowerCase_def)

lemma getFileExtension_lower: "toLowerCase (getFileExtension f) = getFileExtension f"
  by (simp add: getFileExtension_def toLowerCase_idem toLowerCase_Nil split: option.splits)

lemma matches_exact_ci:
  "matches_exact p (getFileExtension f)
     \<longleftrightarrow> toLowerCase (getFileExtension f) = toLowerCase (trim p)"
  by (simp add: matches_exact_def getFileExtension_lower trim_toLowerCase)

lemma matches_plain:
  assumes "CHR ''*'' \<notin> set p" and "CHR '','' \<notin> set p"
  shows "matches p f \<longleftrightarrow>
           getFileExtension f \<noteq> [] \<and> toLowerCase (getFileExtension f) = toLowerCase (trim p)"
proof (cases "p = [] \<or> f = []")
  case True
  then show ?thesis
  proof
    assume "p = []"
    then show ?thesis
      by (auto simp: matches_def trim_def toLowerCase_def)
  next
    assume "f = []"
    then show ?thesis by (simp add: matches_def getFileExtension_def)
  qed
next
  case False
  then show ?thesis
    using assms matches_exact_ci [of p f] by (auto simp: matches_def Let_def)
qed

lemma alnum_not_ws: "isLowerAZ c \<or> isUpperAZ c \<or> isDigit c \<Longrightarrow> \<not> isWhiteSpace c"
  by (auto simp: isLowerAZ_def isUpperAZ_def isDigit_def isWhiteSpace_def)

lemma clean_of_trimmed:
  assumes "\<forall>c \<in> set (trim p). isLowerAZ c \<or> isUpperAZ c \<or> isDigit c"
  shows "filter (\<lambda>c. \<not> isWhiteSpace c) (toLowerCase p) = toLowerCase (trim p)"
proof -
  obtain l r where d: "p = l @ trim p @ r" "list_all isWhiteSpace l" "list_all isWhiteSpace r"
    using trim_decomp [of p] by blast
  have ws: "filter (\<lambda>c. \<not> isWhiteSpace c) (toLowerCase w) = []" if "list_all isWhiteSpace w" for w
    using that by (simp add: toLowerCase_def filter_empty_conv list_all_iff toLowerChar_ws)
  have keep: "filter (\<lambda>c. \<not> isWhiteSpace c) (toLowerCase (trim p)) = toLowerCase (trim p)"
    using assms alnum_not_ws
    by (simp add: toLowerCase_def filter_id_conv toLowerChar_ws)
  have "toLowerCase p = toLowerCase l @ toLowerCase (trim p) @ toLowerCase r"
    by (subst d(1)) (simp add: toLowerCase_def)
  then show ?thesis by (simp add: ws [OF d(2)] ws [OF d(3)] keep)
qed

lemma paths_agree:
  assumes alnum: "\<forall>c \<in> set (trim p). isLowerAZ c \<or> isUpperAZ c \<or> isDigit c"
  shows "matches_regex p e = matches_exact p e"
proof -
  obtain l r where d: "p = l @ trim p @ r" "list_all isWhiteSpace l" "list_all isWhiteSpace r"
    using trim_decomp [of p] by blast
  have chars: "isLowerAZ c \<or> isUpperAZ c \<or> isDigit c \<or> isWhiteSpace c" if "c \<in> set p" for c
  proof -
    from that have "c \<in> set l \<or> c \<in> set (trim p) \<or> c \<in> set r"
      by (subst (asm) d(1)) auto
    then show ?thesis using alnum d(2,3) by (auto simp: list_all_iff)
  qed
  have valid: "\<forall>c \<in> set p. isPatternChar c \<or> isWhiteSpace c"
    using chars by (auto simp: isPatternChar_def)
  have out: "c \<notin> set p" if "c = CHR ''.'' \<or> c = CHR ''*'' \<or> c = CHR '',''" for c
    using chars [of c] that
    by (auto simp: isLowerAZ_def isUpperAZ_def isDigit_def isWhiteSpace_def)
  let ?clean = "filter (\<lambda>c. \<not> isWhiteSpace c) (toLowerCase p)"
  have "CHR '','' \<notin> set ?clean" using out by (intro clean_keeps_out) simp_all
  then have one: "js_split CHR '','' ?clean = [?clean]" by (rule js_split_none)
  have "matches_regex p e \<longleftrightarrow> e \<in> set (js_split CHR '','' ?clean)"
    using valid out by (intro matches_regex_literal) simp_all
  also have "\<dots> \<longleftrightarrow> e = ?clean"
    by (simp only: one) simp
  also have "\<dots> \<longleftrightarrow> e = toLowerCase (trim p)"
    by (simp only: clean_of_trimmed [OF alnum])
  also have "\<dots> \<longleftrightarrow> matches_exact p e"
    by (simp add: matches_exact_def trim_toLowerCase)
  finally show ?thesis .
qed


lemma js_split_map:
  assumes "\<And>c. f c = sep \<longleftrightarrow> c = sep"
  shows "js_split sep (map f s) = map (map f) (js_split sep s)"
proof (induction s)
  case Nil
  then show ?case by simp
next
  case (Cons c cs)
  obtain w ws where w: "js_split sep cs = w # ws"
    using js_split_nonempty [of sep cs] by (cases "js_split sep cs") auto
  show ?case using Cons w assms by (cases "c = sep") auto
qed

lemma toLowerChar_comma: "toLowerChar c = CHR '','' \<longleftrightarrow> c = CHR '',''"
proof
  assume a: "toLowerChar c = CHR '',''"
  then have "(of_char (toLowerChar c) :: nat) < 97" by simp
  then have "toLowerChar c = c" by (rule toLowerChar_low)
  with a show "c = CHR '',''" by simp
next
  assume "c = CHR '',''"
  then show "toLowerChar c = CHR '',''" by (simp add: toLowerChar_def)
qed

lemma js_split_toLowerCase:
  "js_split CHR '','' (toLowerCase p) = map toLowerCase (js_split CHR '','' p)"
  unfolding toLowerCase_def using toLowerChar_comma by (intro js_split_map) 

lemma patternChar_not_ws: "isPatternChar c \<Longrightarrow> \<not> isWhiteSpace c"
  by (auto simp: isPatternChar_def isLowerAZ_def isUpperAZ_def isDigit_def isWhiteSpace_def)

lemma valid_clean:
  assumes "\<forall>c \<in> set p. isPatternChar c"
  shows "filter (\<lambda>c. \<not> isWhiteSpace c) (toLowerCase p) = toLowerCase p"
  using assms patternChar_not_ws
  by (simp add: toLowerCase_def filter_id_conv toLowerChar_ws)

lemma valid_trim:
  assumes "\<forall>c \<in> set p. isPatternChar c"
  shows "trim p = p"
proof (cases "p = []")
  case True
  then show ?thesis by (simp add: trim_def)
next
  case False
  then have "hd p \<in> set p" "last p \<in> set p" by simp_all
  then have "\<not> isWhiteSpace (hd p)" "\<not> isWhiteSpace (last p)"
    using assms patternChar_not_ws by blast+
  with False show ?thesis by (rule trim_id)
qed

text \<open>
  Where the pattern is validated and has neither dot nor star, \<open>matches\<close> is the
  case-insensitive membership of the extension in the comma-separated list.
\<close>

lemma matches_comma_list:
  assumes valid: "isValidExtensionPattern (JStr p :: 'n jsval)"
    and nodot: "CHR ''.'' \<notin> set p" and nostar: "CHR ''*'' \<notin> set p"
  shows "matches p f \<longleftrightarrow>
           getFileExtension f \<noteq> []
           \<and> getFileExtension f \<in> set (map toLowerCase (js_split CHR '','' p))"
proof -
  from valid have ne: "p \<noteq> []" and chars: "\<forall>c \<in> set p. isPatternChar c"
    by (auto simp: list_all_iff split: if_splits)
  let ?e = "getFileExtension f"
  show ?thesis
  proof (cases "CHR '','' \<in> set p")
    case True
    have "matches_regex p ?e \<longleftrightarrow>
            ?e \<in> set (js_split CHR '','' (filter (\<lambda>c. \<not> isWhiteSpace c) (toLowerCase p)))"
      using chars nodot nostar by (intro matches_regex_literal) auto
    then have "matches_regex p ?e \<longleftrightarrow> ?e \<in> set (map toLowerCase (js_split CHR '','' p))"
      by (simp only: valid_clean [OF chars] js_split_toLowerCase)
    moreover have "matches p f \<longleftrightarrow> ?e \<noteq> [] \<and> matches_regex p ?e"
      using True ne by (auto simp: matches_def Let_def getFileExtension_def)
    ultimately show ?thesis by blast
  next
    case False
    then have "js_split CHR '','' p = [p]" by (rule js_split_none)
    moreover have "matches p f \<longleftrightarrow> ?e \<noteq> [] \<and> toLowerCase ?e = toLowerCase (trim p)"
      using nostar False by (rule matches_plain)
    ultimately show ?thesis
      by (auto simp: valid_trim [OF chars] getFileExtension_lower)
  qed
qed

lemma findMatchingRule_find:
  "findMatchingRule rules d f =
     (case find (\<lambda>r. matches (extension r) f) rules of None \<Rightarrow> d | Some r \<Rightarrow> foldername r)"
  by (induction rules) auto

lemma findMatchingRule_first:
  "\<forall>q \<in> set pre. \<not> matches (extension q) f \<Longrightarrow> matches (extension r) f \<Longrightarrow>
   findMatchingRule (pre @ r # post) d f = foldername r"
  by (induction pre) auto

lemma findMatchingRule_none:
  "\<forall>r \<in> set rules. \<not> matches (extension r) f \<Longrightarrow> findMatchingRule rules d f = d"
  by (induction rules) auto

lemma matches_no_extension: "getFileExtension f = [] \<Longrightarrow> \<not> matches p f"
  by (simp add: matches_def)

section \<open>Lemmas: stored rules\<close>

lemma DEFAULT_RULES_valid:
  "\<forall>r \<in> set DEFAULT_RULES.
     extension r \<noteq> [] \<and> length (extension r) \<le> 200 \<and> list_all isPatternChar (extension r)
     \<and> foldername r \<noteq> [] \<and> length (foldername r) \<le> 100
     \<and> (\<forall>ch \<in> set (foldername r). ch \<notin> set invalidFilenameChars)
     \<and> length (rid r) \<le> 50"
  by code_simp

lemma sanitizeFolderName_any:
  fixes v :: "'n jsval"
  shows "sanitizeFolderName v \<noteq> []" "length (sanitizeFolderName v) \<le> 100"
    "\<forall>ch \<in> set (sanitizeFolderName v). ch \<notin> set invalidFilenameChars"
proof -
  show "sanitizeFolderName v \<noteq> []"
    using sanitize_post(1) [where 'n = 'n] by (cases v) simp_all
  show "length (sanitizeFolderName v) \<le> 100"
    using sanitize_post(2) [where 'n = 'n] by (cases v) simp_all
  show "\<forall>ch \<in> set (sanitizeFolderName v). ch \<notin> set invalidFilenameChars"
    using sanitize_post(3) [where 'n = 'n] downloads_clean(1) by (cases v) simp_all
qed

lemma sanitizeRule_extension:
  "sanitizeRule nt ns e = Some r \<Longrightarrow>
   extension r \<noteq> [] \<longleftrightarrow> isValidExtensionPattern (getProp e ''extension'')"
  by (cases "getProp e ''extension''") (auto simp: sanitizeRule_def split: if_splits)

lemma sanitizeRule_valid:
  assumes "sanitizeRule nt ns e = Some r" and "extension r \<noteq> []"
  shows "length (extension r) \<le> 200
       \<and> list_all isPatternChar (extension r)
       \<and> foldername r \<noteq> []
       \<and> length (foldername r) \<le> 100
       \<and> (\<forall>ch \<in> set (foldername r). ch \<notin> set invalidFilenameChars)
       \<and> length (rid r) \<le> 50"
proof -
  have f: "foldername r = sanitizeFolderName (getProp e ''foldername'')"
    using assms(1) by (auto simp: sanitizeRule_def)
  have "length (extension r) \<le> 200 \<and> list_all isPatternChar (extension r)"
    using assms
    by (cases "getProp e ''extension''") (auto simp: sanitizeRule_def split: if_splits)
  moreover have "length (rid r) \<le> 50"
    using assms(1) by (auto simp: sanitizeRule_def)
  ultimately show ?thesis
    unfolding f using sanitizeFolderName_any [of "getProp e ''foldername''"] by blast
qed

lemma valid_extension_object:
  "truthy nt e \<and> typeofObject e \<and> isValidExtensionPattern (getProp e ''extension'')
     \<longleftrightarrow> (case e of JObj kvs \<Rightarrow> isValidExtensionPattern (getProp e ''extension'') | _ \<Rightarrow> False)"
  by (cases e) auto

lemma those_Some_elem:
  "those xs = Some ys \<Longrightarrow> y \<in> set ys \<Longrightarrow> Some y \<in> set xs"
proof (induction xs arbitrary: ys)
  case Nil
  then show ?case by simp
next
  case (Cons x xs)
  then show ?case by (auto split: option.splits)
qed

text \<open>What \<open>getRules\<close> returns: the defaults, or the mapped entries that kept an extension.\<close>

lemma getRules_cases:
  "getRules parse nt ns rules = DEFAULT_RULES
   \<or> (\<exists>es mapped.
         (case rules of JStr s \<Rightarrow> parse s | _ \<Rightarrow> Some rules) = Some (JArr es)
         \<and> those (map (sanitizeRule nt ns) (filter (\<lambda>r. truthy nt r \<and> typeofObject r) es))
             = Some mapped
         \<and> getRules parse nt ns rules
             = filter (\<lambda>r. extension r \<noteq> [] \<and> foldername r \<noteq> []) mapped)"
proof (cases "case rules of JStr s \<Rightarrow> parse s | _ \<Rightarrow> Some rules")
  case None
  show ?thesis unfolding getRules_def None by simp
next
  case (Some v)
  show ?thesis
  proof (cases v)
    case (JArr es)
    show ?thesis
    proof (cases "those (map (sanitizeRule nt ns) (filter (\<lambda>r. truthy nt r \<and> typeofObject r) es))")
      case None
      show ?thesis unfolding getRules_def Some JArr by (simp add: None)
    next
      case (Some mapped)
      show ?thesis
        unfolding getRules_def \<open>(case rules of JStr s \<Rightarrow> parse s | _ \<Rightarrow> Some rules) = Some v\<close> JArr
        by (intro disjI2 exI [of _ es] exI [of _ mapped]) (simp add: Some)
    qed
  qed (simp_all add: getRules_def Some)
qed

text \<open>A rule that comes out of the array branch is the sanitized form of an entry.\<close>

lemma getRules_origin:
  assumes "those (map (sanitizeRule nt ns) (filter (\<lambda>r. truthy nt r \<and> typeofObject r) es))
             = Some mapped"
    and "r \<in> set (filter (\<lambda>r. extension r \<noteq> [] \<and> foldername r \<noteq> []) mapped)"
  shows "\<exists>e \<in> set es. truthy nt e \<and> typeofObject e \<and> sanitizeRule nt ns e = Some r
           \<and> extension r \<noteq> []"
proof -
  from assms(2) have "r \<in> set mapped" "extension r \<noteq> []" by simp_all
  with those_Some_elem [OF assms(1)]
  have "Some r \<in> set (map (sanitizeRule nt ns) (filter (\<lambda>r. truthy nt r \<and> typeofObject r) es))"
    by blast
  then obtain e where "e \<in> set es" "truthy nt e \<and> typeofObject e" "sanitizeRule nt ns e = Some r"
    by auto
  with \<open>extension r \<noteq> []\<close> show ?thesis by blast
qed

section \<open>Folder-name sanitization\<close>

text \<open>
  Claim C7. \<open>SecurityUtils.sanitizeFolderName\<close> applies its steps to a string in this
  order: it removes the characters \<open>< > : " / \ | ? *\<close>; it removes every \<open>..\<close>, after
  which none is left; it removes one leading dot, after which the string starts with
  none; it trims white space from both ends; it keeps the first 100 characters; and an
  empty outcome is replaced by \<open>downloads\<close>. The returned name is never empty, has at
  most 100 characters, none of the removed characters and no \<open>..\<close>.
\<close>

theorem sanitizeFolderName_steps:
  fixes folderName :: string
  shows "let a = removeInvalidChars folderName;
             b = removeTraversal a;
             c = removeLeadingDot b;
             d = trim c;
             e = take 100 d;
             r = sanitizeFolderName (JStr folderName :: 'n jsval)
         in a = filter (\<lambda>ch. ch \<notin> set invalidFilenameChars) folderName
          \<and> subseq b a \<and> \<not> sublist ''..'' b
          \<and> (if prefix ''.'' b then b = CHR ''.'' # c else c = b) \<and> \<not> prefix ''.'' c
          \<and> (\<exists>l t. c = l @ d @ t \<and> list_all isWhiteSpace l \<and> list_all isWhiteSpace t)
          \<and> (d \<noteq> [] \<longrightarrow> \<not> isWhiteSpace (hd d) \<and> \<not> isWhiteSpace (last d))
          \<and> prefix e d \<and> length e = min 100 (length d)
          \<and> r = (if e = [] then ''downloads'' else e)
          \<and> r \<noteq> [] \<and> length r \<le> 100
          \<and> (\<forall>ch \<in> set r. ch \<notin> set invalidFilenameChars) \<and> \<not> sublist ''..'' r"
proof -
  let ?a = "removeInvalidChars folderName"
  let ?b = "removeTraversal ?a"
  let ?c = "removeLeadingDot ?b"
  let ?d = "trim ?c"
  let ?e = "take 100 ?d"
  let ?r = "sanitizeFolderName (JStr folderName :: 'n jsval)"
  have 1: "?a = filter (\<lambda>ch. ch \<notin> set invalidFilenameChars) folderName"
    by (simp add: removeInvalidChars_def)
  have 2: "subseq ?b ?a" "\<not> sublist ''..'' ?b"
    by (rule removeTraversal_subseq, rule removeTraversal_no_dotdot)
  have 3: "if prefix ''.'' ?b then ?b = CHR ''.'' # ?c else ?c = ?b" "\<not> prefix ''.'' ?c"
    using removeLeadingDot_cases [of ?b] removeLeadingDot_no_dot [OF 2(2)] by blast+
  have 4: "\<exists>l t. ?c = l @ ?d @ t \<and> list_all isWhiteSpace l \<and> list_all isWhiteSpace t"
    by (rule trim_decomp)
  have 5: "?d \<noteq> [] \<longrightarrow> \<not> isWhiteSpace (hd ?d) \<and> \<not> isWhiteSpace (last ?d)"
    using trim_hd [of ?c] trim_last [of ?c] by blast
  have 6: "prefix ?e ?d" "length ?e = min 100 (length ?d)"
    by (simp_all add: take_is_prefix min.commute)
  have 7: "?r = (if ?e = [] then ''downloads'' else ?e)"
    by (simp add: or_str_def)
  note 8 = sanitize_post(1-4) [of folderName, where 'n = 'n]
  show ?thesis
    unfolding Let_def using 1 2 3 4 5 6 7 8 by blast
qed

theorem sanitizeFolderName_steps_witness:
  "trim (removeLeadingDot (removeTraversal (removeInvalidChars '' ../My:Docs* ''))) \<noteq> []
   \<and> sanitizeFolderName (JStr '' ../My:Docs* '' :: unit jsval) = ''MyDocs''
   \<and> (let a = removeInvalidChars '' ../My:Docs* '';
             b = removeTraversal a;
             c = removeLeadingDot b;
             d = trim c;
             e = take 100 d;
             r = sanitizeFolderName (JStr '' ../My:Docs* '' :: unit jsval)
         in a = filter (\<lambda>ch. ch \<notin> set invalidFilenameChars) '' ../My:Docs* ''
          \<and> subseq b a \<and> \<not> sublist ''..'' b
          \<and> (if prefix ''.'' b then b = CHR ''.'' # c else c = b) \<and> \<not> prefix ''.'' c
          \<and> (\<exists>l t. c = l @ d @ t \<and> list_all isWhiteSpace l \<and> list_all isWhiteSpace t)
          \<and> (d \<noteq> [] \<longrightarrow> \<not> isWhiteSpace (hd d) \<and> \<not> isWhiteSpace (last d))
          \<and> prefix e d \<and> length e = min 100 (length d)
          \<and> r = (if e = [] then ''downloads'' else e)
          \<and> r \<noteq> [] \<and> length r \<le> 100
          \<and> (\<forall>ch \<in> set r. ch \<notin> set invalidFilenameChars) \<and> \<not> sublist ''..'' r)"
proof (intro conjI)
  show "trim (removeLeadingDot (removeTraversal (removeInvalidChars '' ../My:Docs* ''))) \<noteq> []"
    by code_simp
  show "sanitizeFolderName (JStr '' ../My:Docs* '' :: unit jsval) = ''MyDocs''"
    by code_simp
qed (rule sanitizeFolderName_steps)

text \<open>
  Claim C8, as stated: sanitizing twice gives what sanitizing once gives. It fails on
  \<open>" .a"\<close>: no dot leads the string when the leading dot is looked for, the trim then
  exposes one, and the second pass removes it.
\<close>

theorem sanitizeFolderName_not_idempotent:
  "sanitizeFolderName (JStr '' .a'' :: unit jsval) = ''.a''
   \<and> sanitizeFolderName (JStr (sanitizeFolderName (JStr '' .a'' :: unit jsval)) :: unit jsval) = ''a''"
  by code_simp

text \<open>
  Claim C8, amended. Sanitizing twice gives what sanitizing once gives exactly when
  the sanitized name does not begin with a dot and does not end with a white-space
  character; a trimmed-out leading dot and a cut at 100 characters that leaves a space
  last are the only two ways to lose idempotence.
\<close>

theorem sanitizeFolderName_idempotent_iff:
  fixes x :: string
  shows "sanitizeFolderName (JStr (sanitizeFolderName (JStr x :: 'n jsval)) :: 'n jsval)
           = sanitizeFolderName (JStr x :: 'n jsval)
         \<longleftrightarrow> \<not> prefix ''.'' (sanitizeFolderName (JStr x :: 'n jsval))
             \<and> \<not> isWhiteSpace (last (sanitizeFolderName (JStr x :: 'n jsval)))"
  by (rule sanitize_twice_iff)

theorem sanitizeFolderName_idempotent_witness:
  "\<not> prefix ''.'' (sanitizeFolderName (JStr ''my/docs'' :: unit jsval))
   \<and> \<not> isWhiteSpace (last (sanitizeFolderName (JStr ''my/docs'' :: unit jsval)))
   \<and> sanitizeFolderName (JStr (sanitizeFolderName (JStr ''my/docs'' :: unit jsval)) :: unit jsval)
       = sanitizeFolderName (JStr ''my/docs'' :: unit jsval)"
proof -
  have "sanitizeFolderName (JStr ''my/docs'' :: unit jsval) = ''mydocs''" by code_simp
  then have "\<not> prefix ''.'' (sanitizeFolderName (JStr ''my/docs'' :: unit jsval))
      \<and> \<not> isWhiteSpace (last (sanitizeFolderName (JStr ''my/docs'' :: unit jsval)))"
    by (simp add: isWhiteSpace_def)
  then show ?thesis
    using sanitizeFolderName_idempotent_iff [of "''my/docs''", where 'n = unit] by blast
qed

text \<open>The cut at 100 characters can leave a space last, which a second pass trims.\<close>

lemma sanitizeFolderName_cut_example:
  "sanitizeFolderName (JStr (replicate 99 CHR ''a'' @ '' b'') :: unit jsval)
     = replicate 99 CHR ''a'' @ '' ''
   \<and> sanitizeFolderName (JStr (replicate 99 CHR ''a'' @ '' '') :: unit jsval)
     = replicate 99 CHR ''a''"
  by code_simp

section \<open>Pattern matching and rule resolution\<close>

text \<open>
  Claim C3, as stated: for a pattern without \<open>*\<close> and \<open>,\<close> the exact comparison and the
  regular expression of \<open>createRegexPattern\<close> give the same answer. They differ on the
  validated pattern \<open>a.b\<close> and the extension \<open>axb\<close> of \<open>f.axb\<close>: the dot is not escaped,
  so the regular expression accepts any character in its place.
\<close>

theorem exact_regex_paths_differ:
  "CHR ''*'' \<notin> set ''a.b'' \<and> CHR '','' \<notin> set ''a.b''
   \<and> isValidExtensionPattern (JStr ''a.b'' :: unit jsval)
   \<and> getFileExtension ''f.axb'' = ''axb''
   \<and> matches_regex ''a.b'' ''axb''
   \<and> \<not> matches_exact ''a.b'' ''axb''"
  by code_simp

text \<open>
  Claim C3, amended. For every pattern that, once trimmed, is made of letters and
  digits only (so without \<open>*\<close>, \<open>,\<close> and \<open>.\<close>) and every extension, the exact comparison
  and the regular expression give the same answer; on the extension of a file, which
  is in lower case, both are the case-insensitive comparison with the trimmed pattern,
  and that is the answer of \<open>matches\<close> for a file that has an extension.
\<close>

theorem exact_regex_paths_agree:
  assumes "\<forall>c \<in> set (trim p). isLowerAZ c \<or> isUpperAZ c \<or> isDigit c"
  shows "matches_exact p e = matches_regex p e
       \<and> (matches_exact p (getFileExtension f)
            \<longleftrightarrow> toLowerCase (getFileExtension f) = toLowerCase (trim p))
       \<and> (matches p f
            \<longleftrightarrow> getFileExtension f \<noteq> []
                \<and> toLowerCase (getFileExtension f) = toLowerCase (trim p))"
proof (intro conjI)
  show "matches_exact p e = matches_regex p e"
    using paths_agree [OF assms, of e] by simp
  show "matches_exact p (getFileExtension f)
          \<longleftrightarrow> toLowerCase (getFileExtension f) = toLowerCase (trim p)"
    by (rule matches_exact_ci)
  obtain l r where d: "p = l @ trim p @ r" "list_all isWhiteSpace l" "list_all isWhiteSpace r"
    using trim_decomp [of p] by blast
  have "isLowerAZ c \<or> isUpperAZ c \<or> isDigit c \<or> isWhiteSpace c" if "c \<in> set p" for c
  proof -
    from that have "c \<in> set l \<or> c \<in> set (trim p) \<or> c \<in> set r"
      by (subst (asm) d(1)) auto
    then show ?thesis using assms d(2,3) by (auto simp: list_all_iff)
  qed
  from this [of "CHR ''*''"] this [of "CHR '',''"]
  have "CHR ''*'' \<notin> set p" "CHR '','' \<notin> set p"
    by (auto simp: isLowerAZ_def isUpperAZ_def isDigit_def isWhiteSpace_def)
  then show "matches p f
          \<longleftrightarrow> getFileExtension f \<noteq> []
              \<and> toLowerCase (getFileExtension f) = toLowerCase (trim p)"
    by (rule matches_plain)
qed

theorem exact_regex_paths_agree_witness:
  "list_all (\<lambda>c. isLowerAZ c \<or> isUpperAZ c \<or> isDigit c) (trim '' Jpg '')
   \<and> getFileExtension ''Photo.JPG'' = ''jpg''
   \<and> matches_exact '' Jpg '' ''jpg'' = matches_regex '' Jpg '' ''jpg''
   \<and> (matches_exact '' Jpg '' (getFileExtension ''Photo.JPG'')
        \<longleftrightarrow> toLowerCase (getFileExtension ''Photo.JPG'') = toLowerCase (trim '' Jpg ''))
   \<and> (matches '' Jpg '' ''Photo.JPG''
        \<longleftrightarrow> getFileExtension ''Photo.JPG'' \<noteq> []
            \<and> toLowerCase (getFileExtension ''Photo.JPG'') = toLowerCase (trim '' Jpg ''))
   \<and> matches '' Jpg '' ''Photo.JPG''"
proof -
  have h: "\<forall>c \<in> set (trim '' Jpg ''). isLowerAZ c \<or> isUpperAZ c \<or> isDigit c"
    by code_simp
  have e: "getFileExtension ''Photo.JPG'' = ''jpg''" by code_simp
  have m: "matches '' Jpg '' ''Photo.JPG''" by code_simp
  show ?thesis
    using h e m exact_regex_paths_agree [OF h, of "''jpg''" "''Photo.JPG''"]
    unfolding list_all_iff by blast
qed

text \<open>
  Claim C4 says that a comma-separated list of literal terms matches an extension
  exactly when the extension equals one of the terms, case apart. The validated
  pattern \<open>tar.gz,zip\<close> matches the file \<open>notes.tarxgz\<close>, whose extension \<open>tarxgz\<close> is
  neither \<open>tar.gz\<close> nor \<open>zip\<close>: \<open>createRegexPattern\<close> turns commas and stars into regular
  expression syntax and leaves the dot, which the validation admits, unescaped.
\<close>

theorem comma_list_dot_matches_other:
  "isValidExtensionPattern (JStr ''tar.gz,zip'' :: unit jsval)
   \<and> js_split CHR '','' ''tar.gz,zip'' = [''tar.gz'', ''zip'']
   \<and> getFileExtension ''notes.tarxgz'' = ''tarxgz''
   \<and> matches ''tar.gz,zip'' ''notes.tarxgz''"
  by code_simp

text \<open>
  Claim C1. \<open>determineTargetFolder\<close> answers with the folder of the first rule, in the
  order of the list, whose pattern matches the file name, whatever the rules after it;
  with the default folder when no rule matches; and so with the default folder when the
  file name has no extension. The file name is the suggested one, or the one read off
  the URL when none is suggested.
\<close>

theorem determineTargetFolder_first_match:
  "((\<forall>q \<in> set pre. \<not> matches (extension q) (filenameFor URL url suggestedFilename))
      \<and> matches (extension r) (filenameFor URL url suggestedFilename)
     \<longrightarrow> determineTargetFolder URL (pre @ r # post) defaultFolder url suggestedFilename
           = foldername r)
   \<and> ((\<forall>r \<in> set rules. \<not> matches (extension r) (filenameFor URL url suggestedFilename))
     \<longrightarrow> determineTargetFolder URL rules defaultFolder url suggestedFilename = defaultFolder)
   \<and> (getFileExtension (filenameFor URL url suggestedFilename) = []
     \<longrightarrow> determineTargetFolder URL rules defaultFolder url suggestedFilename = defaultFolder)"
  unfolding Let_def determineTargetFolder_def
  using findMatchingRule_first findMatchingRule_none matches_no_extension
  by (metis (no_types, lifting))

theorem determineTargetFolder_first_match_witness:
  "filenameFor exampleURL ''https://example.com/report.pdf'' (Some ''a.jpg'') = ''a.jpg''
   \<and> matches ''jpg'' ''a.jpg''
   \<and> determineTargetFolder exampleURL
         [\<lparr>rid = ''1'', extension = ''jpg'', foldername = ''images''\<rparr>,
          \<lparr>rid = ''2'', extension = ''jpg'', foldername = ''photos''\<rparr>]
         ''downloads'' ''https://example.com/report.pdf'' (Some ''a.jpg'') = ''images''
   \<and> getFileExtension (filenameFor exampleURL ''https://example.com/report.pdf'' (Some ''README'')) = []
   \<and> determineTargetFolder exampleURL
         [\<lparr>rid = ''1'', extension = ''jpg'', foldername = ''images''\<rparr>,
          \<lparr>rid = ''2'', extension = ''jpg'', foldername = ''photos''\<rparr>]
         ''downloads'' ''https://example.com/report.pdf'' (Some ''README'') = ''downloads''"
proof -
  let ?r1 = "\<lparr>rid = ''1'', extension = ''jpg'', foldername = ''images''\<rparr>"
  let ?r2 = "\<lparr>rid = ''2'', extension = ''jpg'', foldername = ''photos''\<rparr>"
  let ?url = "''https://example.com/report.pdf''"
  have f: "filenameFor exampleURL ?url (Some ''a.jpg'') = ''a.jpg''"
    by (simp add: filenameFor_def or_str_def)
  have m: "matches ''jpg'' ''a.jpg''" by code_simp
  have x: "getFileExtension (filenameFor exampleURL ?url (Some ''README'')) = []"
    by code_simp
  have 1: "determineTargetFolder exampleURL ([] @ ?r1 # [?r2]) ''downloads'' ?url (Some ''a.jpg'')
             = foldername ?r1"
    using determineTargetFolder_first_match
      [where suggestedFilename = "Some ''a.jpg''" and URL = exampleURL and url = ?url
         and pre = "[]" and r = ?r1 and post = "[?r2]" and defaultFolder = "''downloads''"]
      f m by simp
  have 2: "determineTargetFolder exampleURL [?r1, ?r2] ''downloads'' ?url (Some ''README'')
             = ''downloads''"
    using determineTargetFolder_first_match
      [where suggestedFilename = "Some ''README''" and URL = exampleURL and url = ?url
         and rules = "[?r1, ?r2]" and defaultFolder = "''downloads''"]
      x by blast
  show ?thesis using f m x 1 2 by simp
qed

section \<open>Tracking hosts and downloadable extensions\<close>

lemma isTracking_iff:
  "isTrackingOrAnalyticsUrl URL url \<longleftrightarrow>
     (\<exists>urlObj. URL url = Some urlObj
        \<and> (\<exists>domain \<in> set trackingDomains. sublist domain (toLowerCase (hostname urlObj))))"
proof -
  have "suffix (''.'' @ d) h \<Longrightarrow> sublist d h" for d h :: string
    by (metis sublist_append_leftI suffix_def sublist_order.order.trans suffix_imp_sublist)
  then show ?thesis
    by (auto simp: isTrackingOrAnalyticsUrl_def Let_def list_ex_iff split: option.splits)
qed

lemma spec_denylisted_sublist:
  "spec_isDenylistedHost h \<Longrightarrow> \<exists>domain \<in> set trackingDomains. sublist domain h"
  unfolding spec_isDenylistedHost_def list_ex_iff
  by (metis sublist_append_leftI sublist_order.order.refl suffix_def sublist_order.order.trans suffix_imp_sublist)

text \<open>
  Claim C5, as stated: only a hostname that equals a denylisted entry or is a subdomain
  of one is classified as tracking. The program tests \<open>hostname.includes(domain)\<close>, so
  \<open>socialmedia.net\<close>, which contains \<open>media.net\<close>, is classified as tracking.
\<close>

theorem isTracking_not_only_subdomains:
  "exampleURL ''https://socialmedia.net/report.pdf''
     = Some \<lparr>protocol = ''https:'', hostname = ''socialmedia.net'',
             pathname = ''/report.pdf'', search = []\<rparr>
   \<and> isTrackingOrAnalyticsUrl exampleURL ''https://socialmedia.net/report.pdf''
   \<and> \<not> spec_isDenylistedHost ''socialmedia.net''"
  by code_simp

text \<open>
  Claim C5, amended. The classifier returns true exactly when the URL parses and its
  hostname, in lower case, contains a denylisted entry as a substring. A hostname that
  equals an entry or is a subdomain of one is therefore classified as tracking, and so
  is any other hostname that contains an entry; a URL that does not parse is not.
\<close>

theorem isTracking_substring:
  "(isTrackingOrAnalyticsUrl URL url \<longleftrightarrow>
      (\<exists>urlObj. URL url = Some urlObj
         \<and> (\<exists>domain \<in> set trackingDomains. sublist domain (toLowerCase (hostname urlObj)))))
   \<and> (URL url = Some urlObj \<and> spec_isDenylistedHost (toLowerCase (hostname urlObj))
        \<longrightarrow> isTrackingOrAnalyticsUrl URL url)
   \<and> (URL url = None \<longrightarrow> \<not> isTrackingOrAnalyticsUrl URL url)"
  using isTracking_iff [of URL url] spec_denylisted_sublist by auto

theorem isTracking_substring_witness:
  "exampleURL ''https://doubleclick.net/x''
     = Some \<lparr>protocol = ''https:'', hostname = ''doubleclick.net'', pathname = ''/x'', search = []\<rparr>
   \<and> spec_isDenylistedHost (toLowerCase ''doubleclick.net'')
   \<and> isTrackingOrAnalyticsUrl exampleURL ''https://doubleclick.net/x''
   \<and> exampleURL ''https://example.com/report.pdf''
     = Some \<lparr>protocol = ''https:'', hostname = ''example.com'', pathname = ''/report.pdf'', search = []\<rparr>
   \<and> \<not> isTrackingOrAnalyticsUrl exampleURL ''https://example.com/report.pdf''
   \<and> exampleURL ''not a url'' = None
   \<and> \<not> isTrackingOrAnalyticsUrl exampleURL ''not a url''"
proof -
  let ?u = "\<lparr>protocol = ''https:'', hostname = ''doubleclick.net'', pathname = ''/x'', search = []\<rparr>"
  have 1: "exampleURL ''https://doubleclick.net/x'' = Some ?u" by code_simp
  have 2: "spec_isDenylistedHost (toLowerCase ''doubleclick.net'')" by code_simp
  have "exampleURL ''https://doubleclick.net/x'' = Some ?u
          \<and> spec_isDenylistedHost (toLowerCase (hostname ?u))
        \<longrightarrow> isTrackingOrAnalyticsUrl exampleURL ''https://doubleclick.net/x''"
    using isTracking_substring [of exampleURL "''https://doubleclick.net/x''" ?u] by blast
  then have 3: "isTrackingOrAnalyticsUrl exampleURL ''https://doubleclick.net/x''"
    using 1 2 by simp
  have 4: "exampleURL ''https://example.com/report.pdf''
     = Some \<lparr>protocol = ''https:'', hostname = ''example.com'', pathname = ''/report.pdf'', search = []\<rparr>"
    by code_simp
  have 5: "\<not> isTrackingOrAnalyticsUrl exampleURL ''https://example.com/report.pdf''"
    by code_simp
  have 6: "exampleURL ''not a url'' = None" by code_simp
  have "exampleURL ''not a url'' = None \<longrightarrow> \<not> isTrackingOrAnalyticsUrl exampleURL ''not a url''"
    using isTracking_substring [of exampleURL "''not a url''"] by blast
  then have 7: "\<not> isTrackingOrAnalyticsUrl exampleURL ''not a url''"
    using 6 by simp
  show ?thesis using 1 2 3 4 5 6 7 by blast
qed

text \<open>
  Claim C6. A URL whose extension is one of \<open>vtt\<close>, \<open>srt\<close>, \<open>ass\<close>, \<open>m3u8\<close>, \<open>ts\<close> is not
  a likely download and the decision for a navigation rejects it, whatever the list
  of downloadable extensions holds: the excluded list is looked at first. A URL whose
  extension is in neither list is rejected as well.
\<close>

theorem excluded_extension_rejected:
  assumes "getFileExtension (getFilenameFromUrl URL url) \<in> set excludedExtensions
           \<or> getFileExtension (getFilenameFromUrl URL url) \<notin> set downloadableExtensions"
  shows "\<not> isLikelyDownloadableFile URL url \<and> \<not> isUserInitiatedDownload URL url"
proof -
  have "\<not> isLikelyDownloadableFile URL url"
    using assms by (auto simp: isLikelyDownloadableFile_def Let_def)
  then show ?thesis by (simp add: isUserInitiatedDownload_def)
qed

theorem excluded_extension_rejected_witness:
  "getFileExtension (getFilenameFromUrl exampleURL ''https://example.com/video.m3u8'')
     \<in> set excludedExtensions
   \<and> \<not> isLikelyDownloadableFile exampleURL ''https://example.com/video.m3u8''
   \<and> \<not> isUserInitiatedDownload exampleURL ''https://example.com/video.m3u8''
   \<and> getFileExtension (getFilenameFromUrl exampleURL ''https://example.com/notes.xyz'')
     \<notin> set excludedExtensions
   \<and> getFileExtension (getFilenameFromUrl exampleURL ''https://example.com/notes.xyz'')
     \<notin> set downloadableExtensions
   \<and> \<not> isLikelyDownloadableFile exampleURL ''https://example.com/notes.xyz''
   \<and> \<not> isUserInitiatedDownload exampleURL ''https://example.com/notes.xyz''"
proof -
  have 1: "getFileExtension (getFilenameFromUrl exampleURL ''https://example.com/video.m3u8'')
             \<in> set excludedExtensions"
    by code_simp
  have 2: "getFileExtension (getFilenameFromUrl exampleURL ''https://example.com/notes.xyz'')
             \<notin> set excludedExtensions"
    by code_simp
  have 3: "getFileExtension (getFilenameFromUrl exampleURL ''https://example.com/notes.xyz'')
             \<notin> set downloadableExtensions"
    by code_simp
  show ?thesis
    using 1 2 3
      excluded_extension_rejected [of exampleURL "''https://example.com/video.m3u8''"]
      excluded_extension_rejected [of exampleURL "''https://example.com/notes.xyz''"]
    by blast
qed

text \<open>The two lists have no extension in common, and a plain document URL is accepted.\<close>

lemma extension_lists_disjoint: "set excludedExtensions \<inter> set downloadableExtensions = {}"
  by code_simp

lemma pdf_navigation_accepted:
  "isUserInitiatedDownload exampleURL ''https://example.com/report.pdf''"
  by code_simp

section \<open>Rules read from storage\<close>

text \<open>
  Claim C10. Whatever is stored under \<open>rules\<close> (a JSON string, an array, anything else,
  nothing) and whatever \<open>JSON.parse\<close> makes of a string, every rule returned by
  \<open>getRules\<close> has a non-empty extension of at most 200 characters from
  \<open>[a-zA-Z0-9,.*]\<close>, a non-empty folder name of at most 100 characters without
  \<open>< > : " / \ | ? *\<close>, and an id of at most 50 characters. When the stored value is an
  array, every returned rule is a default rule or the sanitized form of an entry that
  is an object with a valid extension pattern: no other entry appears.
\<close>

theorem getRules_valid:
  "(\<forall>r \<in> set (getRules parse nt ns rules).
      extension r \<noteq> [] \<and> length (extension r) \<le> 200 \<and> list_all isPatternChar (extension r)
      \<and> foldername r \<noteq> [] \<and> length (foldername r) \<le> 100
      \<and> (\<forall>ch \<in> set (foldername r). ch \<notin> set invalidFilenameChars)
      \<and> length (rid r) \<le> 50)
   \<and> ((case rules of JStr s \<Rightarrow> parse s | _ \<Rightarrow> Some rules) = Some (JArr entries)
      \<longrightarrow> (\<forall>r \<in> set (getRules parse nt ns rules).
            r \<in> set DEFAULT_RULES
            \<or> (\<exists>e \<in> set entries.
                  (case e of JObj kvs \<Rightarrow> True | _ \<Rightarrow> False)
                  \<and> isValidExtensionPattern (getProp e ''extension'')
                  \<and> sanitizeRule nt ns e = Some r)))"
proof (intro conjI impI)
  let ?ok = "\<lambda>r. extension r \<noteq> [] \<and> length (extension r) \<le> 200
      \<and> list_all isPatternChar (extension r)
      \<and> foldername r \<noteq> [] \<and> length (foldername r) \<le> 100
      \<and> (\<forall>ch \<in> set (foldername r). ch \<notin> set invalidFilenameChars)
      \<and> length (rid r) \<le> 50"
  from getRules_cases [of parse nt ns rules]
  show "\<forall>r \<in> set (getRules parse nt ns rules). ?ok r"
  proof (elim disjE exE conjE)
    assume a: "getRules parse nt ns rules = DEFAULT_RULES"
    show ?thesis unfolding a by (rule DEFAULT_RULES_valid)
  next
    fix es mapped
    assume t: "those (map (sanitizeRule nt ns) (filter (\<lambda>r. truthy nt r \<and> typeofObject r) es))
                 = Some mapped"
      and a: "getRules parse nt ns rules
                = filter (\<lambda>r. extension r \<noteq> [] \<and> foldername r \<noteq> []) mapped"
    show ?thesis
      unfolding a
    proof
      fix r
      assume "r \<in> set (filter (\<lambda>r. extension r \<noteq> [] \<and> foldername r \<noteq> []) mapped)"
      from getRules_origin [OF t this]
      obtain e where e: "sanitizeRule nt ns e = Some r" "extension r \<noteq> []" by blast
      then show "?ok r" using sanitizeRule_valid [OF e] by blast
    qed
  qed
next
  assume arr: "(case rules of JStr s \<Rightarrow> parse s | _ \<Rightarrow> Some rules) = Some (JArr entries)"
  from getRules_cases [of parse nt ns rules]
  show "\<forall>r \<in> set (getRules parse nt ns rules).
          r \<in> set DEFAULT_RULES
          \<or> (\<exists>e \<in> set entries.
                (case e of JObj kvs \<Rightarrow> True | _ \<Rightarrow> False)
                \<and> isValidExtensionPattern (getProp e ''extension'')
                \<and> sanitizeRule nt ns e = Some r)"
  proof (elim disjE exE conjE)
    assume a: "getRules parse nt ns rules = DEFAULT_RULES"
    show ?thesis unfolding a by blast
  next
    fix es mapped
    assume p: "(case rules of JStr s \<Rightarrow> parse s | _ \<Rightarrow> Some rules) = Some (JArr es)"
      and t: "those (map (sanitizeRule nt ns) (filter (\<lambda>r. truthy nt r \<and> typeofObject r) es))
                 = Some mapped"
      and a: "getRules parse nt ns rules
                = filter (\<lambda>r. extension r \<noteq> [] \<and> foldername r \<noteq> []) mapped"
    from p arr have es: "es = entries" by simp
    show ?thesis
      unfolding a
    proof
      fix r
      assume "r \<in> set (filter (\<lambda>r. extension r \<noteq> [] \<and> foldername r \<noteq> []) mapped)"
      from getRules_origin [OF t this]
      obtain e where e: "e \<in> set es" "truthy nt e \<and> typeofObject e"
        "sanitizeRule nt ns e = Some r" "extension r \<noteq> []"
        by blast
      from e(3,4) have v: "isValidExtensionPattern (getProp e ''extension'')"
        using sanitizeRule_extension by blast
      with e(2) have "(case e of JObj kvs \<Rightarrow> True | _ \<Rightarrow> False)"
        by (cases e) auto
      with e(1,3) v es
      show "r \<in> set DEFAULT_RULES
          \<or> (\<exists>e \<in> set entries.
                (case e of JObj kvs \<Rightarrow> True | _ \<Rightarrow> False)
                \<and> isValidExtensionPattern (getProp e ''extension'')
                \<and> sanitizeRule nt ns e = Some r)"
        by blast
    qed
  qed
qed

theorem getRules_valid_witness:
  "getRules (\<lambda>s. None) (\<lambda>n :: nat. n \<noteq> 0) (\<lambda>n. ''3'')
      (JArr [JObj [(''id'', JNum 3), (''extension'', JStr ''jpg,png''),
                   (''foldername'', JStr ''../pics'')],
             JNull,
             JStr ''x'',
             JObj [(''extension'', JStr ''a b''), (''foldername'', JStr ''x'')]])
     = [\<lparr>rid = ''3'', extension = ''jpg,png'', foldername = ''pics''\<rparr>]
   \<and> list_all
        (\<lambda>r. extension r \<noteq> [] \<and> length (extension r) \<le> 200
           \<and> list_all isPatternChar (extension r)
           \<and> foldername r \<noteq> [] \<and> length (foldername r) \<le> 100
           \<and> (\<forall>ch \<in> set (foldername r). ch \<notin> set invalidFilenameChars)
           \<and> length (rid r) \<le> 50)
        (getRules (\<lambda>s. None) (\<lambda>n :: nat. n \<noteq> 0) (\<lambda>n. ''3'')
          (JArr [JObj [(''id'', JNum 3), (''extension'', JStr ''jpg,png''),
                       (''foldername'', JStr ''../pics'')],
                 JNull,
                 JStr ''x'',
                 JObj [(''extension'', JStr ''a b''), (''foldername'', JStr ''x'')]]))"
proof (rule conjI)
  show "getRules (\<lambda>s. None) (\<lambda>n :: nat. n \<noteq> 0) (\<lambda>n. ''3'')
      (JArr [JObj [(''id'', JNum 3), (''extension'', JStr ''jpg,png''),
                   (''foldername'', JStr ''../pics'')],
             JNull,
             JStr ''x'',
             JObj [(''extension'', JStr ''a b''), (''foldername'', JStr ''x'')]])
     = [\<lparr>rid = ''3'', extension = ''jpg,png'', foldername = ''pics''\<rparr>]"
    by code_simp
qed (subst list_all_iff, rule conjunct1 [OF getRules_valid])

text \<open>
  A string that does not parse, a stored value that is no array, and an id that
  \<open>String\<close> cannot convert give the defaults.
\<close>

lemma getRules_defaults:
  "getRules (\<lambda>s. None) nt ns (JStr s) = DEFAULT_RULES"
  "getRules parse nt ns JUndefined = DEFAULT_RULES"
  "getRules parse nt ns JNull = DEFAULT_RULES"
  "getRules parse nt ns (JObj kvs) = DEFAULT_RULES"
  "getRules parse nt ns
     (JArr [JObj [(''id'', JObj [(''toString'', JNull)]), (''extension'', JStr ''jpg''),
                  (''foldername'', JStr ''x'')]]) = DEFAULT_RULES"
  by (simp_all add: getRules_def sanitizeRule_def)

section \<open>Dispatching a controlled download\<close>

lemma initiate_enter_pending:
  "downloadKey url suggestedFilename \<in> pendingDownloads st \<Longrightarrow>
   initiate_enter URL st url suggestedFilename = (st, ReturnedNull)"
  by (simp add: initiate_enter_def Let_def)

lemma initiate_enter_fresh:
  "isValidDownloadUrl URL url \<Longrightarrow> downloadKey url suggestedFilename \<notin> pendingDownloads st \<Longrightarrow>
   initiate_enter URL st url suggestedFilename
     = (st\<lparr>pendingDownloads := insert (downloadKey url suggestedFilename) (pendingDownloads st)\<rparr>,
        Suspended (downloadKey url suggestedFilename))"
  by (simp add: initiate_enter_def Let_def)

lemma initiate_resume_calls:
  "downloadCalls (fst (initiate_resume URL download rules defaultFolder st url suggestedFilename))
     = downloadCalls st @ [downloadOptions URL rules defaultFolder url suggestedFilename]"
  by (simp add: initiate_resume_def Let_def split: sum.splits)

lemma initiate_resume_ok:
  "download (downloadOptions URL rules defaultFolder url suggestedFilename) = Inr downloadId \<Longrightarrow>
   initiate_resume URL download rules defaultFolder st url suggestedFilename
     = (st\<lparr>downloadCalls := downloadCalls st
                @ [downloadOptions URL rules defaultFolder url suggestedFilename],
            timers := timers st @ [(30000, downloadKey url suggestedFilename)]\<rparr>,
        Some downloadId)"
  by (simp add: initiate_resume_def Let_def)

lemma initiate_resume_failed:
  "download (downloadOptions URL rules defaultFolder url suggestedFilename) = Inl message \<Longrightarrow>
   initiate_resume URL download rules defaultFolder st url suggestedFilename
     = (st\<lparr>downloadCalls := downloadCalls st
                @ [downloadOptions URL rules defaultFolder url suggestedFilename],
            pendingDownloads := pendingDownloads st - {downloadKey url suggestedFilename}\<rparr>,
        None)"
  by (simp add: initiate_resume_def Let_def)

text \<open>
  Claim C2. While the key \<open>url + suggestedFilename\<close> is pending, a call returns \<open>null\<close>
  at once, leaves the state as it is and so calls \<open>downloads.download\<close> not at all.
  Hence, when a first call with a valid URL has registered the key, a second call with
  the same arguments that starts while the first is suspended returns \<open>null\<close>, and the
  two calls together call \<open>downloads.download\<close> exactly once, whether that call succeeds
  or fails; the same holds when the second call starts after the first has succeeded
  and before its timer fires.
\<close>

theorem duplicate_dispatch_suppressed:
  "(downloadKey url suggestedFilename \<in> pendingDownloads st
      \<longrightarrow> initiate_enter URL st url suggestedFilename = (st, ReturnedNull)
        \<and> initiateControlledDownload URL download rules defaultFolder st url suggestedFilename
            = (st, None))
   \<and> (isValidDownloadUrl URL url \<and> downloadKey url suggestedFilename \<notin> pendingDownloads st
      \<longrightarrow> (let (st1, first) = initiate_enter URL st url suggestedFilename;
                (st2, second) = initiate_enter URL st1 url suggestedFilename;
                (st3, result) = initiate_resume URL download rules defaultFolder st2 url suggestedFilename
            in first = Suspended (downloadKey url suggestedFilename)
             \<and> second = ReturnedNull \<and> st2 = st1
             \<and> downloadCalls st3
                 = downloadCalls st @ [downloadOptions URL rules defaultFolder url suggestedFilename]))
   \<and> (isValidDownloadUrl URL url \<and> downloadKey url suggestedFilename \<notin> pendingDownloads st
       \<and> download (downloadOptions URL rules defaultFolder url suggestedFilename) = Inr downloadId
      \<longrightarrow> (let (st1, first) =
                  initiateControlledDownload URL download rules defaultFolder st url suggestedFilename;
                (st2, second) =
                  initiateControlledDownload URL download rules defaultFolder st1 url suggestedFilename
            in first = Some downloadId \<and> second = None \<and> st2 = st1
             \<and> downloadCalls st2
                 = downloadCalls st @ [downloadOptions URL rules defaultFolder url suggestedFilename]))"
proof (intro conjI impI)
  assume p: "downloadKey url suggestedFilename \<in> pendingDownloads st"
  then show "initiate_enter URL st url suggestedFilename = (st, ReturnedNull)"
    by (rule initiate_enter_pending)
  then show "initiateControlledDownload URL download rules defaultFolder st url suggestedFilename
            = (st, None)"
    by (simp add: initiateControlledDownload_def)
next
  let ?key = "downloadKey url suggestedFilename"
  let ?st1 = "st\<lparr>pendingDownloads := insert ?key (pendingDownloads st)\<rparr>"
  assume a: "isValidDownloadUrl URL url \<and> ?key \<notin> pendingDownloads st"
  then have 1: "initiate_enter URL st url suggestedFilename = (?st1, Suspended ?key)"
    by (simp add: initiate_enter_fresh)
  have 2: "initiate_enter URL ?st1 url suggestedFilename = (?st1, ReturnedNull)"
    by (rule initiate_enter_pending) simp
  have 3: "downloadCalls (fst (initiate_resume URL download rules defaultFolder ?st1 url suggestedFilename))
             = downloadCalls st @ [downloadOptions URL rules defaultFolder url suggestedFilename]"
    by (simp add: initiate_resume_calls)
  show "let (st1, first) = initiate_enter URL st url suggestedFilename;
            (st2, second) = initiate_enter URL st1 url suggestedFilename;
            (st3, result) = initiate_resume URL download rules defaultFolder st2 url suggestedFilename
        in first = Suspended ?key \<and> second = ReturnedNull \<and> st2 = st1
         \<and> downloadCalls st3
             = downloadCalls st @ [downloadOptions URL rules defaultFolder url suggestedFilename]"
    using 3 by (auto simp: 1 2 Let_def split: prod.splits)
next
  let ?key = "downloadKey url suggestedFilename"
  let ?opts = "downloadOptions URL rules defaultFolder url suggestedFilename"
  let ?st0 = "st\<lparr>pendingDownloads := insert ?key (pendingDownloads st)\<rparr>"
  let ?st1 = "?st0\<lparr>downloadCalls := downloadCalls ?st0 @ [?opts],
                    timers := timers ?st0 @ [(30000, ?key)]\<rparr>"
  assume a: "isValidDownloadUrl URL url \<and> ?key \<notin> pendingDownloads st
             \<and> download ?opts = Inr downloadId"
  then have e: "initiate_enter URL st url suggestedFilename = (?st0, Suspended ?key)"
    by (simp add: initiate_enter_fresh)
  have r: "initiate_resume URL download rules defaultFolder ?st0 url suggestedFilename
             = (?st1, Some downloadId)"
    using a by (simp add: initiate_resume_ok)
  have 1: "initiateControlledDownload URL download rules defaultFolder st url suggestedFilename
             = (?st1, Some downloadId)"
    by (simp add: initiateControlledDownload_def e r)
  have "initiate_enter URL ?st1 url suggestedFilename = (?st1, ReturnedNull)"
    by (rule initiate_enter_pending) simp
  then have 2: "initiateControlledDownload URL download rules defaultFolder ?st1 url suggestedFilename
             = (?st1, None)"
    by (simp add: initiateControlledDownload_def)
  show "let (st1, first) =
              initiateControlledDownload URL download rules defaultFolder st url suggestedFilename;
            (st2, second) =
              initiateControlledDownload URL download rules defaultFolder st1 url suggestedFilename
        in first = Some downloadId \<and> second = None \<and> st2 = st1
         \<and> downloadCalls st2 = downloadCalls st @ [?opts]"
    by (simp only: 1 2 Let_def prod.case) simp
qed

theorem duplicate_dispatch_suppressed_witness:
  "isValidDownloadUrl exampleURL ''https://example.com/report.pdf''
   \<and> downloadKey ''https://example.com/report.pdf'' None
       \<notin> pendingDownloads \<lparr>pendingDownloads = {}, downloadCalls = [], timers = []\<rparr>
   \<and> (let (st1, first) =
              initiate_enter exampleURL \<lparr>pendingDownloads = {}, downloadCalls = [], timers = []\<rparr>
                ''https://example.com/report.pdf'' None;
            (st2, second) = initiate_enter exampleURL st1 ''https://example.com/report.pdf'' None;
            (st3, result) =
              initiate_resume exampleURL (\<lambda>opts. Inr 7) DEFAULT_RULES ''downloads'' st2
                ''https://example.com/report.pdf'' None
        in first = Suspended (downloadKey ''https://example.com/report.pdf'' None)
         \<and> second = ReturnedNull \<and> st2 = st1
         \<and> downloadCalls st3
             = downloadCalls \<lparr>pendingDownloads = {}, downloadCalls = [], timers = []\<rparr>
               @ [downloadOptions exampleURL DEFAULT_RULES ''downloads''
                    ''https://example.com/report.pdf'' None])
   \<and> downloadOptions exampleURL DEFAULT_RULES ''downloads'' ''https://example.com/report.pdf'' None
       = \<lparr>dl_url = ''https://example.com/report.pdf'', dl_filename = ''documents/report.pdf'',
          conflictAction = ''uniquify''\<rparr>"
proof -
  have h: "isValidDownloadUrl exampleURL ''https://example.com/report.pdf''
     \<and> downloadKey ''https://example.com/report.pdf'' None
         \<notin> pendingDownloads \<lparr>pendingDownloads = {}, downloadCalls = [], timers = []\<rparr>"
    by code_simp
  have o: "downloadOptions exampleURL DEFAULT_RULES ''downloads'' ''https://example.com/report.pdf'' None
       = \<lparr>dl_url = ''https://example.com/report.pdf'', dl_filename = ''documents/report.pdf'',
          conflictAction = ''uniquify''\<rparr>"
    by code_simp
  note t = duplicate_dispatch_suppressed
    [where URL = exampleURL and url = "''https://example.com/report.pdf''"
       and suggestedFilename = None
       and st = "\<lparr>pendingDownloads = {}, downloadCalls = [], timers = []\<rparr>"
       and download = "\<lambda>opts. Inr 7" and rules = DEFAULT_RULES and defaultFolder = "''downloads''"]
  show ?thesis
    using h o t [THEN conjunct2, THEN conjunct1, THEN mp, OF h] by blast
qed

text \<open>
  Claim C9. When \<open>downloads.download\<close> rejects, the call answers \<open>null\<close> (nothing is
  thrown to the caller), the key is no longer pending and no timer is set; a new call
  with the same valid URL and file name is then taken up again instead of being
  suppressed.
\<close>

theorem failed_issuance_releases_key:
  assumes "download (downloadOptions URL rules defaultFolder url suggestedFilename) = Inl message"
  shows "(let (st', result) =
                initiate_resume URL download rules defaultFolder st url suggestedFilename
          in result = None
           \<and> downloadKey url suggestedFilename \<notin> pendingDownloads st'
           \<and> timers st' = timers st
           \<and> (isValidDownloadUrl URL url
                \<longrightarrow> snd (initiate_enter URL st' url suggestedFilename)
                      = Suspended (downloadKey url suggestedFilename)))
       \<and> (isValidDownloadUrl URL url \<and> downloadKey url suggestedFilename \<notin> pendingDownloads st
            \<longrightarrow> (let (st', result) =
                        initiateControlledDownload URL download rules defaultFolder st url
                          suggestedFilename
                  in result = None \<and> pendingDownloads st' = pendingDownloads st
                    \<and> downloadCalls st'
                        = downloadCalls st
                          @ [downloadOptions URL rules defaultFolder url suggestedFilename]))"
proof (intro conjI impI)
  let ?key = "downloadKey url suggestedFilename"
  let ?opts = "downloadOptions URL rules defaultFolder url suggestedFilename"
  let ?st' = "st\<lparr>downloadCalls := downloadCalls st @ [?opts],
                  pendingDownloads := pendingDownloads st - {?key}\<rparr>"
  have r: "initiate_resume URL download rules defaultFolder st url suggestedFilename = (?st', None)"
    using assms by (rule initiate_resume_failed)
  have again: "isValidDownloadUrl URL url
      \<longrightarrow> snd (initiate_enter URL ?st' url suggestedFilename) = Suspended ?key"
    by (simp add: initiate_enter_def Let_def)
  show "let (st', result) =
              initiate_resume URL download rules defaultFolder st url suggestedFilename
        in result = None \<and> ?key \<notin> pendingDownloads st' \<and> timers st' = timers st
         \<and> (isValidDownloadUrl URL url
              \<longrightarrow> snd (initiate_enter URL st' url suggestedFilename) = Suspended ?key)"
    using again by (simp only: r Let_def prod.case) simp
next
  let ?key = "downloadKey url suggestedFilename"
  let ?opts = "downloadOptions URL rules defaultFolder url suggestedFilename"
  let ?st0 = "st\<lparr>pendingDownloads := insert ?key (pendingDownloads st)\<rparr>"
  let ?st' = "?st0\<lparr>downloadCalls := downloadCalls ?st0 @ [?opts],
                    pendingDownloads := pendingDownloads ?st0 - {?key}\<rparr>"
  assume a: "isValidDownloadUrl URL url \<and> ?key \<notin> pendingDownloads st"
  then have e: "initiate_enter URL st url suggestedFilename = (?st0, Suspended ?key)"
    by (simp add: initiate_enter_fresh)
  have r: "initiate_resume URL download rules defaultFolder ?st0 url suggestedFilename = (?st', None)"
    using assms by (rule initiate_resume_failed)
  have 1: "initiateControlledDownload URL download rules defaultFolder st url suggestedFilename
             = (?st', None)"
    by (simp only: initiateControlledDownload_def e r prod.case entry.case)
  show "let (st', result) =
              initiateControlledDownload URL download rules defaultFolder st url suggestedFilename
        in result = None \<and> pendingDownloads st' = pendingDownloads st
         \<and> downloadCalls st' = downloadCalls st @ [?opts]"
    using a by (simp only: 1 Let_def prod.case) simp
qed

theorem failed_issuance_releases_key_witness:
  "(\<lambda>opts :: download_options. (Inl ''NETWORK_FAILED'' :: string + nat))
      (downloadOptions exampleURL DEFAULT_RULES ''downloads'' ''https://example.com/report.pdf'' None)
     = Inl ''NETWORK_FAILED''
   \<and> isValidDownloadUrl exampleURL ''https://example.com/report.pdf''
   \<and> downloadKey ''https://example.com/report.pdf'' None
       \<notin> pendingDownloads \<lparr>pendingDownloads = {}, downloadCalls = [], timers = []\<rparr>
   \<and> initiateControlledDownload exampleURL (\<lambda>opts. Inl ''NETWORK_FAILED'') DEFAULT_RULES ''downloads''
        \<lparr>pendingDownloads = {}, downloadCalls = [], timers = []\<rparr>
        ''https://example.com/report.pdf'' None
     = (\<lparr>pendingDownloads = {},
         downloadCalls = [\<lparr>dl_url = ''https://example.com/report.pdf'',
                           dl_filename = ''documents/report.pdf'',
                           conflictAction = ''uniquify''\<rparr>],
         timers = []\<rparr>, None)
   \<and> (let (st', result) =
              initiateControlledDownload exampleURL (\<lambda>opts. Inl ''NETWORK_FAILED'') DEFAULT_RULES
                ''downloads'' \<lparr>pendingDownloads = {}, downloadCalls = [], timers = []\<rparr>
                ''https://example.com/report.pdf'' None
        in result = None
         \<and> pendingDownloads st'
             = pendingDownloads \<lparr>pendingDownloads = {}, downloadCalls = [], timers = []\<rparr>
         \<and> downloadCalls st'
             = downloadCalls \<lparr>pendingDownloads = {}, downloadCalls = [], timers = []\<rparr>
               @ [downloadOptions exampleURL DEFAULT_RULES ''downloads''
                    ''https://example.com/report.pdf'' None])"
proof -
  have f: "(\<lambda>opts :: download_options. (Inl ''NETWORK_FAILED'' :: string + nat))
      (downloadOptions exampleURL DEFAULT_RULES ''downloads'' ''https://example.com/report.pdf'' None)
     = Inl ''NETWORK_FAILED''"
    by simp
  have h: "isValidDownloadUrl exampleURL ''https://example.com/report.pdf''
     \<and> downloadKey ''https://example.com/report.pdf'' None
         \<notin> pendingDownloads \<lparr>pendingDownloads = {}, downloadCalls = [], timers = []\<rparr>"
    by code_simp
  have v: "initiateControlledDownload exampleURL (\<lambda>opts. Inl ''NETWORK_FAILED'') DEFAULT_RULES ''downloads''
        \<lparr>pendingDownloads = {}, downloadCalls = [], timers = []\<rparr>
        ''https://example.com/report.pdf'' None
     = (\<lparr>pendingDownloads = {},
         downloadCalls = [\<lparr>dl_url = ''https://example.com/report.pdf'',
                           dl_filename = ''documents/report.pdf'',
                           conflictAction = ''uniquify''\<rparr>],
         timers = []\<rparr>, None)"
    by code_simp
  note t = failed_issuance_releases_key
    [where URL = exampleURL and url = "''https://example.com/report.pdf''"
       and suggestedFilename = None
       and st = "\<lparr>pendingDownloads = {}, downloadCalls = [], timers = []\<rparr>"
       and download = "\<lambda>opts. Inl ''NETWORK_FAILED''" and rules = DEFAULT_RULES
       and defaultFolder = "''downloads''" and message = "''NETWORK_FAILED''", OF f]
  show ?thesis
    using f h v t [THEN conjunct2, THEN mp, OF h] by blast
qed

text \<open>Once the timer of a successful call has fired, the same request is taken up again.\<close>

lemma timer_releases_key:
  assumes "isValidDownloadUrl URL url"
  shows "downloadKey url suggestedFilename
           \<notin> pendingDownloads (timer_fires (downloadKey url suggestedFilename) st)
       \<and> snd (initiate_enter URL (timer_fires (downloadKey url suggestedFilename) st)
                url suggestedFilename)
           = Suspended (downloadKey url suggestedFilename)"
  using assms by (simp add: timer_fires_def initiate_enter_def Let_def)

end
